theory Spec2Isabelle
  imports Main "HOL-Library.AList"
begin

section \<open>Python strings\<close>

text \<open>
  A Python \<^verbatim>\<open>str\<close> is a sequence of Unicode code points. It is modelled as a list of
  natural numbers, one per code point, so that the behaviour on text outside ASCII
  (Unicode whitespace, characters produced by \<^verbatim>\<open>\uXXXX\<close> escapes) is the one of the
  interpreter. \<open>str\<close> turns a literal of the theory into such a sequence.
\<close>

type_synonym pystr = "nat list"

definition str :: "string \<Rightarrow> pystr" where
  "str cs = map of_char cs"

text \<open>
  \<^verbatim>\<open>str.isspace\<close> for one code point: the code points CPython treats as whitespace
  (bidirectional type WS, B or S, or category Zs).
\<close>

definition isspace :: "nat \<Rightarrow> bool" where
  "isspace c \<longleftrightarrow>
     (0x09 \<le> c \<and> c \<le> 0x0D) \<or> (0x1C \<le> c \<and> c \<le> 0x20) \<or> c = 0x85 \<or> c = 0xA0 \<or>
     c = 0x1680 \<or> (0x2000 \<le> c \<and> c \<le> 0x200A) \<or> c = 0x2028 \<or> c = 0x2029 \<or>
     c = 0x202F \<or> c = 0x205F \<or> c = 0x3000"

text \<open>\<^verbatim>\<open>s.strip()\<close>: leading and trailing whitespace removed.\<close>

definition strip :: "pystr \<Rightarrow> pystr" where
  "strip s = rev (dropWhile isspace (rev (dropWhile isspace s)))"

definition startswith :: "pystr \<Rightarrow> pystr \<Rightarrow> bool" where
  "startswith s p \<longleftrightarrow> take (length p) s = p"

definition endswith :: "pystr \<Rightarrow> pystr \<Rightarrow> bool" where
  "endswith s x \<longleftrightarrow> length x \<le> length s \<and> drop (length s - length x) s = x"

text \<open>
  \<^verbatim>\<open>s.removeprefix(p)\<close> and \<^verbatim>\<open>s.removesuffix(x)\<close>: the affix is removed once when it is
  there, and the string is returned as it is otherwise.
\<close>

definition removeprefix :: "pystr \<Rightarrow> pystr \<Rightarrow> pystr" where
  "removeprefix s p = (if startswith s p then drop (length p) s else s)"

definition removesuffix :: "pystr \<Rightarrow> pystr \<Rightarrow> pystr" where
  "removesuffix s x = (if x \<noteq> [] \<and> endswith s x then take (length s - length x) s else s)"

text \<open>\<^verbatim>\<open>sub in s\<close>: \<open>sub\<close> occurs in \<open>s\<close> as a contiguous run.\<close>

fun contains :: "pystr \<Rightarrow> pystr \<Rightarrow> bool" where
  "contains [] sub = (sub = [])"
| "contains (c # s) sub = (if startswith (c # s) sub then True else contains s sub)"

section \<open>Exceptions\<close>

text \<open>
  The exceptions the program tells apart: \<^verbatim>\<open>json.JSONDecodeError\<close>, which
  \<^verbatim>\<open>generate_siem_data\<close> catches, its base class \<^verbatim>\<open>ValueError\<close>, \<^verbatim>\<open>RecursionError\<close>,
  and every other subclass of \<^verbatim>\<open>Exception\<close>. A raised exception is the left summand of a result.
  The message and position a \<^verbatim>\<open>JSONDecodeError\<close> carries are not modelled, and
  neither are the exits that are not an \<^verbatim>\<open>Exception\<close> (an interrupt, \<^verbatim>\<open>SystemExit\<close>),
  which no handler of the program catches.
\<close>

datatype exn = JSONDecodeError | RecursionError | ValueError pystr | OtherException pystr

section \<open>The JSON decoder\<close>

text \<open>
  What \<^verbatim>\<open>json.loads\<close> returns: \<^verbatim>\<open>None\<close>, a \<^verbatim>\<open>bool\<close>, an \<^verbatim>\<open>int\<close>, a \<^verbatim>\<open>float\<close>, a
  \<^verbatim>\<open>str\<close>, a \<^verbatim>\<open>list\<close> or a \<^verbatim>\<open>dict\<close>. A float is kept as the text of its literal
  (floating point is not modelled). A dict is its items in insertion order, with
  distinct keys.
\<close>

datatype json =
    JNull
  | JBool bool
  | JInt int
  | JFloat pystr
  | JString pystr
  | JArray "json list"
  | JObject "(pystr \<times> json) list"

text \<open>The decoder's whitespace is space, tab, line feed and carriage return only.\<close>

definition is_json_ws :: "nat \<Rightarrow> bool" where
  "is_json_ws c \<longleftrightarrow> c = 0x20 \<or> c = 0x09 \<or> c = 0x0A \<or> c = 0x0D"

definition skip_ws :: "pystr \<Rightarrow> pystr" where
  "skip_ws s = dropWhile is_json_ws s"

lemma skip_ws_length: "length (skip_ws s) \<le> length s"
  by (simp add: skip_ws_def length_dropWhile_le)

lemma skip_ws_eq_Cons_length: "skip_ws s = c # r \<Longrightarrow> length r < length s"
  using skip_ws_length [of s] by simp

subsection \<open>String literals\<close>

definition hexval :: "nat \<Rightarrow> nat option" where
  "hexval c =
     (if 48 \<le> c \<and> c \<le> 57 then Some (c - 48)
      else if 65 \<le> c \<and> c \<le> 70 then Some (c - 55)
      else if 97 \<le> c \<and> c \<le> 102 then Some (c - 87)
      else None)"

fun hex4 :: "pystr \<Rightarrow> (nat \<times> pystr) option" where
  "hex4 (a # b # c # d # s) =
     (case (hexval a, hexval b, hexval c, hexval d) of
        (Some x3, Some x2, Some x1, Some x0) \<Rightarrow> Some (((x3 * 16 + x2) * 16 + x1) * 16 + x0, s)
      | _ \<Rightarrow> None)"
| "hex4 _ = None"

text \<open>
  The text after \<^verbatim>\<open>\u\<close>: four hexadecimal digits, and, when they are a high surrogate
  followed by the escape of a low surrogate, the pair as one code point.
\<close>

definition decode_u :: "pystr \<Rightarrow> (nat \<times> pystr) option" where
  "decode_u s =
     (case hex4 s of
        None \<Rightarrow> None
      | Some (uni, s1) \<Rightarrow>
          if 0xD800 \<le> uni \<and> uni \<le> 0xDBFF \<and> take 2 s1 = [92, 117] then
            (case hex4 (drop 2 s1) of
               None \<Rightarrow> None
             | Some (uni2, s2) \<Rightarrow>
                 if 0xDC00 \<le> uni2 \<and> uni2 \<le> 0xDFFF
                 then Some (0x10000 + ((uni - 0xD800) * 1024 + (uni2 - 0xDC00)), s2)
                 else Some (uni, s1))
          else Some (uni, s1))"

definition backslash :: "nat \<Rightarrow> nat option" where
  "backslash e =
     (if e = 34 \<or> e = 92 \<or> e = 47 then Some e
      else if e = 98 then Some 8
      else if e = 102 then Some 12
      else if e = 110 then Some 10
      else if e = 114 then Some 13
      else if e = 116 then Some 9
      else None)"

fun decode_escape :: "pystr \<Rightarrow> (nat \<times> pystr) option" where
  "decode_escape [] = None"
| "decode_escape (e # s) =
     (if e = 117 then decode_u s
      else (case backslash e of None \<Rightarrow> None | Some ch \<Rightarrow> Some (ch, s)))"

lemma hex4_length: "hex4 s = Some (u, r) \<Longrightarrow> length s = length r + 4"
  by (induction s rule: hex4.induct) (auto split: option.splits)

lemma decode_u_length: "decode_u s = Some (u, r) \<Longrightarrow> length r < length s"
  by (auto simp: decode_u_def split: option.splits if_splits dest!: hex4_length)

lemma decode_escape_length: "decode_escape s = Some (u, r) \<Longrightarrow> length r < length s"
  by (cases s) (auto split: option.splits if_splits dest!: decode_u_length)

text \<open>
  \<^verbatim>\<open>scanstring\<close> in strict mode, on the text after the opening quote: the decoded
  string and the text after the closing quote. A control character, a bad escape and
  a missing closing quote are errors.
\<close>

function scanstring :: "pystr \<Rightarrow> (pystr \<times> pystr) option" where
  "scanstring [] = None"
| "scanstring (c # s) =
     (if c = 34 then Some ([], s)
      else if c = 92 then
        (case decode_escape s of
           None \<Rightarrow> None
         | Some (ch, s1) \<Rightarrow>
             (case scanstring s1 of None \<Rightarrow> None | Some (t, r) \<Rightarrow> Some (ch # t, r)))
      else if c \<le> 31 then None
      else (case scanstring s of None \<Rightarrow> None | Some (t, r) \<Rightarrow> Some (c # t, r)))"
  by pat_completeness auto
termination
  by (relation "measure length") (auto dest: decode_escape_length)

lemma scanstring_length: "scanstring s = Some (t, r) \<Longrightarrow> length r < length s"
proof (induction s arbitrary: t r rule: scanstring.induct)
  case 1
  then show ?case by simp
next
  case (2 c s)
  then show ?case
    by (fastforce split: if_splits option.splits dest: decode_escape_length)
qed

subsection \<open>Numbers\<close>

text \<open>
  The decoder's number pattern \<^verbatim>\<open>(-?(?:0|[1-9][0-9]*))(\.[0-9]+)?([eE][-+]?[0-9]+)?\<close>,
  one group after the other: the integer with its sign, the fraction, the exponent.
\<close>

definition is_digit :: "nat \<Rightarrow> bool" where
  "is_digit c \<longleftrightarrow> 48 \<le> c \<and> c \<le> 57"

definition digits_value :: "pystr \<Rightarrow> nat" where
  "digits_value ds = foldl (\<lambda>a d. 10 * a + (d - 48)) 0 ds"

definition int_part :: "pystr \<Rightarrow> (pystr \<times> pystr) option" where
  "int_part s =
     (case s of
        [] \<Rightarrow> None
      | d # r \<Rightarrow>
          if d = 48 then Some ([d], r)
          else if is_digit d then Some (d # takeWhile is_digit r, dropWhile is_digit r)
          else None)"

definition frac_part :: "pystr \<Rightarrow> pystr \<times> pystr" where
  "frac_part s =
     (case s of
        [] \<Rightarrow> ([], s)
      | c # r \<Rightarrow>
          if c = 46 \<and> takeWhile is_digit r \<noteq> []
          then (c # takeWhile is_digit r, dropWhile is_digit r)
          else ([], s))"

definition exp_sign :: "pystr \<Rightarrow> pystr" where
  "exp_sign s = (if take 1 s = [43] \<or> take 1 s = [45] then take 1 s else [])"

definition exp_part :: "pystr \<Rightarrow> pystr \<times> pystr" where
  "exp_part s =
     (case s of
        [] \<Rightarrow> ([], s)
      | e # r \<Rightarrow>
          if (e = 101 \<or> e = 69) \<and> takeWhile is_digit (drop (length (exp_sign r)) r) \<noteq> []
          then (e # exp_sign r @ takeWhile is_digit (drop (length (exp_sign r)) r),
                dropWhile is_digit (drop (length (exp_sign r)) r))
          else ([], s))"

definition match_number :: "pystr \<Rightarrow> ((pystr \<times> pystr \<times> pystr) \<times> pystr) option" where
  "match_number s =
     (case int_part (if take 1 s = [45] then drop 1 s else s) of
        None \<Rightarrow> None
      | Some (digits, s1) \<Rightarrow>
          (case frac_part s1 of
             (frac, s2) \<Rightarrow>
               (case exp_part s2 of
                  (exp, s3) \<Rightarrow>
                    Some (((if take 1 s = [45] then [45] else []) @ digits, frac, exp), s3))))"

text \<open>
  The limits of the interpreter that bear on decoding: how many arrays and objects
  may be open at once before the recursion limit is reached, and
  \<^verbatim>\<open>sys.get_int_max_str_digits()\<close>, which is 0 when the length of an integer literal is
  not limited. The program sets neither.
\<close>

record limits =
  max_depth :: nat
  max_str_digits :: nat

text \<open>
  \<^verbatim>\<open>int(integer)\<close> for a matched integer, sign included. A literal of more than 640
  digits that exceeds the limit raises \<^verbatim>\<open>ValueError\<close> (its message is abridged here).
\<close>

definition too_many_digits :: "nat \<Rightarrow> pystr \<Rightarrow> bool" where
  "too_many_digits m ds \<longleftrightarrow> 640 < length ds \<and> 0 < m \<and> m < length ds"

definition parse_int :: "nat \<Rightarrow> pystr \<Rightarrow> exn + json" where
  "parse_int m integer =
     (if take 1 integer = [45] then
        (if too_many_digits m (drop 1 integer)
         then Inl (ValueError (str ''Exceeds the limit for integer string conversion''))
         else Inr (JInt (- int (digits_value (drop 1 integer)))))
      else
        (if too_many_digits m integer
         then Inl (ValueError (str ''Exceeds the limit for integer string conversion''))
         else Inr (JInt (int (digits_value integer)))))"

text \<open>
  The value of a match: a match with a fraction or an exponent is a \<^verbatim>\<open>float\<close>, any
  other an \<^verbatim>\<open>int\<close>.
\<close>

fun number_value :: "nat \<Rightarrow> pystr \<times> pystr \<times> pystr \<Rightarrow> exn + json" where
  "number_value m (integer, frac, exp) =
     (if frac \<noteq> [] \<or> exp \<noteq> [] then Inr (JFloat (integer @ frac @ exp))
      else parse_int m integer)"

subsection \<open>Values\<close>

text \<open>\<^verbatim>\<open>dict(pairs)\<close>: a later pair with a key already there replaces its value in place.\<close>

definition dict :: "(pystr \<times> json) list \<Rightarrow> (pystr \<times> json) list" where
  "dict pairs = foldl (\<lambda>d (k, v). AList.update k v d) [] pairs"

text \<open>
  \<^verbatim>\<open>scan_once\<close> reads one value at the head of the text and returns it with the text
  that follows; \<open>array_loop\<close> and \<open>object_loop\<close> are the loops of \<^verbatim>\<open>JSONArray\<close> and
  \<^verbatim>\<open>JSONObject\<close>, entered after the first element or key has been found to start.
  \<open>m\<close> is the limit on the digits of an integer and \<open>d\<close> the number of arrays and
  objects that may still be opened: opening one when none may raises
  \<^verbatim>\<open>RecursionError\<close>. Any other failure is a \<^verbatim>\<open>JSONDecodeError\<close>.
  The comparison of lengths after a nested value is read always succeeds (lemma
  \<open>scan_once_length\<close> below); it is what makes the recursion well founded.
\<close>

function scan_once :: "nat \<Rightarrow> nat \<Rightarrow> pystr \<Rightarrow> exn + json \<times> pystr"
  and array_loop :: "nat \<Rightarrow> nat \<Rightarrow> json list \<Rightarrow> pystr \<Rightarrow> exn + json \<times> pystr"
  and object_loop :: "nat \<Rightarrow> nat \<Rightarrow> (pystr \<times> json) list \<Rightarrow> pystr \<Rightarrow> exn + json \<times> pystr"
where
  "scan_once m d [] = Inl JSONDecodeError"
| "scan_once m d (c # s) =
     (if c = 34 then
        (case scanstring s of
           None \<Rightarrow> Inl JSONDecodeError
         | Some (t, r) \<Rightarrow> Inr (JString t, r))
      else if c = 123 then
        (if d = 0 then Inl RecursionError
         else
           (let s1 = skip_ws s
            in if take 1 s1 = [125] then Inr (JObject [], drop 1 s1)
               else if take 1 s1 = [34] then object_loop m (d - 1) [] (drop 1 s1)
               else Inl JSONDecodeError))
      else if c = 91 then
        (if d = 0 then Inl RecursionError
         else
           (let s1 = skip_ws s
            in if take 1 s1 = [93] then Inr (JArray [], drop 1 s1)
               else array_loop m (d - 1) [] s1))
      else if c = 110 \<and> take 3 s = str ''ull'' then Inr (JNull, drop 3 s)
      else if c = 116 \<and> take 3 s = str ''rue'' then Inr (JBool True, drop 3 s)
      else if c = 102 \<and> take 4 s = str ''alse'' then Inr (JBool False, drop 4 s)
      else
        (case match_number (c # s) of
           Some (groups, r) \<Rightarrow>
             (case number_value m groups of
                Inl e \<Rightarrow> Inl e
              | Inr v \<Rightarrow> Inr (v, r))
         | None \<Rightarrow>
             if c = 78 \<and> take 2 s = str ''aN'' then Inr (JFloat (str ''NaN''), drop 2 s)
             else if c = 73 \<and> take 7 s = str ''nfinity''
               then Inr (JFloat (str ''Infinity''), drop 7 s)
             else if c = 45 \<and> take 8 s = str ''Infinity''
               then Inr (JFloat (str ''-Infinity''), drop 8 s)
             else Inl JSONDecodeError))"
| "array_loop m d vals s =
     (case scan_once m d s of
        Inl e \<Rightarrow> Inl e
      | Inr (v, s1) \<Rightarrow>
          if length s < length s1 then Inl JSONDecodeError
          else
            (case skip_ws s1 of
               [] \<Rightarrow> Inl JSONDecodeError
             | c # s2 \<Rightarrow>
                 if c = 93 then Inr (JArray (vals @ [v]), s2)
                 else if c = 44 then array_loop m d (vals @ [v]) (skip_ws s2)
                 else Inl JSONDecodeError))"
| "object_loop m d pairs s =
     (case scanstring s of
        None \<Rightarrow> Inl JSONDecodeError
      | Some (key, s1) \<Rightarrow>
          (case skip_ws s1 of
             [] \<Rightarrow> Inl JSONDecodeError
           | c # s2 \<Rightarrow>
               if c \<noteq> 58 then Inl JSONDecodeError
               else
                 (case scan_once m d (skip_ws s2) of
                    Inl e \<Rightarrow> Inl e
                  | Inr (v, s3) \<Rightarrow>
                      if length (skip_ws s2) < length s3 then Inl JSONDecodeError
                      else
                        (case skip_ws s3 of
                           [] \<Rightarrow> Inl JSONDecodeError
                         | e # s4 \<Rightarrow>
                             if e = 125 then Inr (JObject (dict (pairs @ [(key, v)])), s4)
                             else if e = 44 then
                               (case skip_ws s4 of
                                  [] \<Rightarrow> Inl JSONDecodeError
                                | q # s5 \<Rightarrow>
                                    if q = 34 then object_loop m d (pairs @ [(key, v)]) s5
                                    else Inl JSONDecodeError)
                             else Inl JSONDecodeError))))"
  by pat_completeness auto

termination
  apply (relation "measure (\<lambda>x. case x of
          Inl (m, d, s) \<Rightarrow> 2 * length s
        | Inr (Inl (m, d, vs, s)) \<Rightarrow> 2 * length s + 1
        | Inr (Inr (m, d, ps, s)) \<Rightarrow> 2 * length s + 1)")
  apply simp_all
  subgoal for d c s x using skip_ws_length [of s] by simp
  subgoal for d c s x using skip_ws_length [of s] by simp
  subgoal for m d s b x y x21 x22
    using skip_ws_eq_Cons_length [of y 44 x22] skip_ws_length [of x22] by simp
  subgoal for s x2 x y x21 x22
    using scanstring_length [of s x y] skip_ws_eq_Cons_length [of y 58 x22]
      skip_ws_length [of x22] by simp
  subgoal for m d s x2 x y x21 x22 b xa ya x21a x22a x21b x22b
    using scanstring_length [of s x y] skip_ws_eq_Cons_length [of y 58 x22]
      skip_ws_length [of x22] skip_ws_eq_Cons_length [of ya 44 x22a]
      skip_ws_eq_Cons_length [of x22a 34 x22b] by simp
  done

declare scan_once.simps(2) [simp del] array_loop.simps [simp del] object_loop.simps [simp del]

text \<open>
  \<^verbatim>\<open>json.loads\<close> on a \<^verbatim>\<open>str\<close>: a byte order mark is refused, whitespace is skipped, one
  value is read, and only whitespace may follow it.
\<close>

definition json_loads :: "limits \<Rightarrow> pystr \<Rightarrow> exn + json" where
  "json_loads lim s =
     (if startswith s [0xFEFF] then Inl JSONDecodeError
      else
        (case scan_once (max_str_digits lim) (max_depth lim) (skip_ws s) of
           Inl e \<Rightarrow> Inl e
         | Inr (obj, r) \<Rightarrow> if skip_ws r = [] then Inr obj else Inl JSONDecodeError))"

text \<open>
  An interpreter with the default limit on digits, 4300, and room for a thousand open
  arrays and objects (the default recursion limit, of which the calls already under
  way use a part), for the examples below. The texts of the examples open at most two
  of them, or a hundred thousand.
\<close>

definition default_limits :: limits where
  "default_limits = \<lparr>max_depth = 1000, max_str_digits = 4300\<rparr>"

section \<open>The program\<close>

subsection \<open>initialize_ai\<close>

text \<open>
  The \<^verbatim>\<open>google.generativeai\<close> module as the program uses it. Every call may raise and
  may change the state \<open>'w\<close> of the world outside the program (the client library,
  the network, the service). A listed model has a name and may declare the
  generation methods it supports; \<^verbatim>\<open>getattr\<close> reads an undeclared attribute as the
  empty list.
\<close>

record model_info =
  name :: pystr
  supported_generation_methods :: "pystr list option"

record ('w, 'h) genai =
  configure :: "pystr \<Rightarrow> 'w \<Rightarrow> (exn + unit) \<times> 'w"
  GenerativeModel :: "pystr \<Rightarrow> 'w \<Rightarrow> (exn + 'h) \<times> 'w"
  list_models :: "'w \<Rightarrow> (exn + model_info list) \<times> 'w"

definition preferred_model :: pystr where
  "preferred_model = str ''gemini-1.5-flash''"

text \<open>
  The names of the listed models that declare \<^verbatim>\<open>generateContent\<close>, in the order of the
  listing (the comprehension bound to \<^verbatim>\<open>available_models\<close>).
\<close>

definition available_models :: "model_info list \<Rightarrow> pystr list" where
  "available_models models =
     [name m. m \<leftarrow> models,
        str ''generateContent'' \<in>
          set (case supported_generation_methods m of None \<Rightarrow> [] | Some ms \<Rightarrow> ms)]"

text \<open>
  The handler of \<^verbatim>\<open>except Exception\<close> runs when the preferred model cannot be bound; a
  bare \<^verbatim>\<open>raise\<close> in it raises the exception it caught again.
\<close>

definition initialize_ai :: "('w, 'h) genai \<Rightarrow> pystr \<Rightarrow> 'w \<Rightarrow> (exn + 'h) \<times> 'w" where
  "initialize_ai g api_key w =
     (case configure g api_key w of
        (Inl e, w1) \<Rightarrow> (Inl e, w1)
      | (Inr u, w1) \<Rightarrow>
          (case GenerativeModel g preferred_model w1 of
             (Inr h, w2) \<Rightarrow> (Inr h, w2)
           | (Inl e, w2) \<Rightarrow>
               (case list_models g w2 of
                  (Inl e', w3) \<Rightarrow> (Inl e', w3)
                | (Inr models, w3) \<Rightarrow>
                    (case available_models models of
                       [] \<Rightarrow> (Inl e, w3)
                     | first # others \<Rightarrow> GenerativeModel g first w3))))"

text \<open>
  To state which calls a run makes, the module is wrapped so that every call is
  appended to a log kept beside the state of the world.
\<close>

datatype call = Configure pystr | Bind pystr | ListModels

definition recording_genai :: "('w, 'h) genai \<Rightarrow> ('w \<times> call list, 'h) genai" where
  "recording_genai g =
     \<lparr> configure = (\<lambda>k (w, log). case configure g k w of (r, w') \<Rightarrow> (r, (w', log @ [Configure k]))),
       GenerativeModel = (\<lambda>n (w, log).
         case GenerativeModel g n w of (r, w') \<Rightarrow> (r, (w', log @ [Bind n]))),
       list_models = (\<lambda>(w, log). case list_models g w of (r, w') \<Rightarrow> (r, (w', log @ [ListModels]))) \<rparr>"

definition calls_made :: "('w, 'h) genai \<Rightarrow> pystr \<Rightarrow> 'w \<Rightarrow> call list" where
  "calls_made g api_key w = snd (snd (initialize_ai (recording_genai g) api_key (w, [])))"

subsection \<open>generate_siem_data\<close>

text \<open>
  A response of the service: reading its \<^verbatim>\<open>text\<close> gives the text or raises. A model
  handle is its \<^verbatim>\<open>generate_content\<close>: given the prompt it returns a response or
  raises, and may change the state of the world.
\<close>

record response =
  "text" :: "exn + pystr"

type_synonym 'w generative_model = "pystr \<Rightarrow> 'w \<Rightarrow> (exn + response) \<times> 'w"

text \<open>
  The prompt is one formatted string with one field, the language: the text before the
  field, the language, and the text after it.
\<close>

definition prompt_head :: pystr where
  \<open>prompt_head =
     str ''\<newline>'' @
     str ''    You are a Senior Security Detection Engineer. Your stack focus is Microsoft Entra ID, Azure, AWS, and Google SecOps.\<newline>'' @
     str ''    Translate the following Natural Language threat hunting request into a highly optimized ''\<close>

definition prompt_tail :: pystr where
  \<open>prompt_tail =
     str '' query.\<newline>'' @
     str ''\<newline>'' @
     str ''    CRITICAL SOC GUARDRAILS (YOU MUST INJECT THESE INTO THE QUERY):\<newline>'' @
     str ''    1. Time scoping: Restrict the search to the last 24 hours.\<newline>'' @
     str ''    2. Exclude service accounts: Filter out users/accounts starting with "svc_".\<newline>'' @
     str ''    3. Performance limit: Limit the output to 100 results (e.g., `| take 100`, `| head 100`, etc.).\<newline>'' @
     str ''\<newline>'' @
     str ''    INVESTIGATIVE RECOMMENDATIONS:\<newline>'' @
     str ''    Provide 3 to 4 logical next-step investigative search terms, pivots, or logic steps based on the context of the user's input.\<newline>'' @
     str ''    (e.g., if checking IPs, suggest "Auth Success vs Failure", "Device IDs").\<newline>'' @
     str ''\<newline>'' @
     str ''    OUTPUT FORMAT:\<newline>'' @
     str ''    You must return a valid JSON object with EXACTLY two keys: "query" and "recommendations".\<newline>'' @
     str ''    "query" must be a string containing the raw code.\<newline>'' @
     str ''    "recommendations" must be a list of 3-4 strings.\<newline>'' @
     str ''    Do not wrap the JSON in markdown code blocks. Just return the raw JSON string.\<newline>'' @
     str ''    ''\<close>

definition system_prompt :: "pystr \<Rightarrow> pystr" where
  "system_prompt language = prompt_head @ language @ prompt_tail"

definition clean_text :: "pystr \<Rightarrow> pystr" where
  "clean_text t = strip (removesuffix (removeprefix (strip t) (str ''```json'')) (str ''```''))"

definition fallback :: json where
  "fallback = JObject
     [(str ''query'', JString (str ''-- Error parsing AI response. Please try again.'')),
      (str ''recommendations'', JArray [])]"

text \<open>The argument of \<^verbatim>\<open>generate_content\<close>: the prompt, a separator and the request.\<close>

definition request_text :: "pystr \<Rightarrow> pystr \<Rightarrow> pystr" where
  "request_text language nl_input =
     system_prompt language @ str ''\<newline>\<newline>User Request: '' @ nl_input"

text \<open>
  The call of the model is outside the \<^verbatim>\<open>try\<close>; reading the text, cleaning it and
  decoding it are inside, and the handler catches \<^verbatim>\<open>JSONDecodeError\<close> only. \<open>lim\<close> are
  the limits of the interpreter the program runs in.
\<close>

definition generate_siem_data ::
    "limits \<Rightarrow> 'w generative_model \<Rightarrow> pystr \<Rightarrow> pystr \<Rightarrow> 'w \<Rightarrow> (exn + json) \<times> 'w" where
  "generate_siem_data lim model nl_input language w =
     (case model (request_text language nl_input) w of
        (Inl e, w1) \<Rightarrow> (Inl e, w1)
      | (Inr response, w1) \<Rightarrow>
          (case (case text response of
                   Inl e \<Rightarrow> Inl e
                 | Inr t \<Rightarrow> json_loads lim (clean_text t)) of
             Inl e \<Rightarrow> (if e = JSONDecodeError then Inr fallback else Inl e, w1)
           | Inr v \<Rightarrow> (Inr v, w1)))"

text \<open>The texts a run submits to the model, logged by a wrapper as above.\<close>

definition recording :: "'w generative_model \<Rightarrow> ('w \<times> pystr list) generative_model" where
  "recording model p = (\<lambda>(w, log). case model p w of (r, w') \<Rightarrow> (r, (w', log @ [p])))"

definition prompts_sent ::
    "limits \<Rightarrow> 'w generative_model \<Rightarrow> pystr \<Rightarrow> pystr \<Rightarrow> 'w \<Rightarrow> pystr list" where
  "prompts_sent lim model nl_input language w =
     snd (snd (generate_siem_data lim (recording model) nl_input language (w, [])))"

text \<open>
  What the page shows as the query: \<^verbatim>\<open>result.get("query", "Error generating query.")\<close>.
  A result that is not a dict has no \<^verbatim>\<open>get\<close>.
\<close>

definition shown_query :: "json \<Rightarrow> exn + json" where
  "shown_query result =
     (case result of
        JObject d \<Rightarrow>
          Inr (case map_of d (str ''query'') of
                 Some q \<Rightarrow> q
               | None \<Rightarrow> JString (str ''Error generating query.''))
      | _ \<Rightarrow> Inl (OtherException (str ''AttributeError'')))"

text \<open>The choices of the language selector of the page.\<close>

definition siem_languages :: "pystr list" where
  "siem_languages =
     [str ''KQL (Microsoft Sentinel)'', str ''YARA-L (Google SecOps)'', str ''Sigma'',
      str ''Splunk SPL'']"

section \<open>Substrings\<close>

lemma startswith_Nil: "startswith s [] = True"
  by (simp add: startswith_def)

lemma startswith_Nil_Cons: "startswith [] (d # sub) = False"
  by (simp add: startswith_def)

lemma startswith_Cons_Cons:
  "startswith (c # s) (d # sub) = (if c = d then startswith s sub else False)"
  by (simp add: startswith_def)

lemmas startswith_eval = startswith_Nil startswith_Nil_Cons startswith_Cons_Cons

lemma startswith_append: "startswith (sub @ b) sub"
  by (simp add: startswith_def)

lemma contains_prefix: "contains (sub @ b) sub"
  using startswith_append [of sub b] by (cases "sub @ b") auto

lemma contains_appendI: "contains (a @ sub @ b) sub"
proof (induction a)
  case Nil
  show ?case using contains_prefix by simp
next
  case (Cons x a)
  then show ?case by simp
qed

lemma contains_decompose: "contains s sub \<Longrightarrow> \<exists>a b. s = a @ sub @ b"
proof (induction s)
  case Nil
  then show ?case by simp
next
  case (Cons c s)
  show ?case
  proof (cases "startswith (c # s) sub")
    case True
    then have "c # s = [] @ sub @ drop (length sub) (c # s)"
      by (metis append_Nil append_take_drop_id startswith_def)
    then show ?thesis by blast
  next
    case False
    with Cons obtain a b where "s = a @ sub @ b" by auto
    then have "c # s = (c # a) @ sub @ b" by simp
    then show ?thesis by blast
  qed
qed

lemma contains_append_left: "contains s sub \<Longrightarrow> contains (a @ s) sub"
proof -
  assume "contains s sub"
  then obtain x y where "s = x @ sub @ y" using contains_decompose by blast
  then have "a @ s = (a @ x) @ sub @ y" by simp
  then show ?thesis using contains_appendI by metis
qed

lemma contains_append_right: "contains s sub \<Longrightarrow> contains (s @ b) sub"
proof -
  assume "contains s sub"
  then obtain x y where "s = x @ sub @ y" using contains_decompose by blast
  then have "s @ b = x @ sub @ (y @ b)" by simp
  then show ?thesis using contains_appendI by metis
qed

section \<open>The prompt\<close>

lemma tail_time:
  "contains prompt_tail (str ''1. Time scoping: Restrict the search to the last 24 hours.'')"
  unfolding prompt_tail_def
  apply (rule contains_append_left)
  apply (rule contains_append_left)
  apply (rule contains_append_left)
  apply (rule contains_append_right)
  apply (simp add: str_def startswith_eval)
  done

lemma tail_svc:
  \<open>contains prompt_tail
     (str ''2. Exclude service accounts: Filter out users/accounts starting with "svc_".'')\<close>
  unfolding prompt_tail_def
  apply (rule contains_append_left)
  apply (rule contains_append_left)
  apply (rule contains_append_left)
  apply (rule contains_append_left)
  apply (rule contains_append_right)
  apply (simp add: str_def startswith_eval)
  done

lemma tail_limit:
  "contains prompt_tail (str ''3. Performance limit: Limit the output to 100 results'')"
  unfolding prompt_tail_def
  apply (rule contains_append_left)
  apply (rule contains_append_left)
  apply (rule contains_append_left)
  apply (rule contains_append_left)
  apply (rule contains_append_left)
  apply (rule contains_append_right)
  apply (simp add: str_def startswith_eval)
  done

lemma request_text_tail: "contains prompt_tail sub \<Longrightarrow> contains (request_text language nl_input) sub"
  unfolding request_text_def system_prompt_def
  by (intro contains_append_left contains_append_right)

lemma request_text_language: "contains (request_text language nl_input) language"
  unfolding request_text_def system_prompt_def
  using contains_appendI [of prompt_head language "prompt_tail @ str ''\<newline>\<newline>User Request: '' @ nl_input"]
  by simp

lemma prompts_sent_eq:
  "prompts_sent lim model nl_input language w = [request_text language nl_input]"
  by (simp add: prompts_sent_def generate_siem_data_def recording_def
      split: prod.splits sum.splits)

section \<open>Model selection\<close>

lemma calls_made_configure_raises:
  "configure g api_key w = (Inl e, w1) \<Longrightarrow> calls_made g api_key w = [Configure api_key]"
  by (simp add: calls_made_def initialize_ai_def recording_genai_def)

lemma calls_made_preferred:
  "configure g api_key w = (Inr u, w1) \<Longrightarrow> GenerativeModel g preferred_model w1 = (Inr h, w2) \<Longrightarrow>
     calls_made g api_key w = [Configure api_key, Bind preferred_model]"
  by (simp add: calls_made_def initialize_ai_def recording_genai_def)

lemma calls_made_fallback:
  "configure g api_key w = (Inr u, w1) \<Longrightarrow> GenerativeModel g preferred_model w1 = (Inl e, w2) \<Longrightarrow>
     take 3 (calls_made g api_key w) = [Configure api_key, Bind preferred_model, ListModels]"
  by (simp add: calls_made_def initialize_ai_def recording_genai_def
      split: prod.splits sum.splits list.splits)

lemma fallback_iff:
  "(ListModels \<in> set (calls_made g api_key w)) =
     (\<exists>u w1 e. configure g api_key w = (Inr u, w1) \<and>
        fst (GenerativeModel g preferred_model w1) = Inl e)"
proof (cases "configure g api_key w")
  case (Pair r w1)
  show ?thesis
  proof (cases r)
    case (Inl e)
    with Pair show ?thesis by (simp add: calls_made_configure_raises)
  next
    case (Inr u)
    note cfg = Pair [unfolded Inr]
    show ?thesis
    proof (cases "GenerativeModel g preferred_model w1")
      case bind: (Pair r2 w2)
      show ?thesis
      proof (cases r2)
        case (Inl e)
        from calls_made_fallback [OF cfg bind [unfolded Inl]]
        have "ListModels \<in> set (take 3 (calls_made g api_key w))" by simp
        then have "ListModels \<in> set (calls_made g api_key w)" by (rule in_set_takeD)
        moreover have "fst (GenerativeModel g preferred_model w1) = Inl e"
          using bind Inl by simp
        ultimately show ?thesis using cfg by blast
      next
        case (Inr h)
        from calls_made_preferred [OF cfg bind [unfolded Inr]]
        have "ListModels \<notin> set (calls_made g api_key w)" by simp
        moreover have "\<not> (\<exists>u w1 e. configure g api_key w = (Inr u, w1) \<and>
            fst (GenerativeModel g preferred_model w1) = Inl e)"
          using cfg bind Inr by auto
        ultimately show ?thesis by blast
      qed
    qed
  qed
qed

lemma preferred_bind_returned:
  "configure g api_key w = (Inr u, w1) \<Longrightarrow> GenerativeModel g preferred_model w1 = (Inr h, w2) \<Longrightarrow>
     initialize_ai g api_key w = (Inr h, w2)"
  by (simp add: initialize_ai_def)

lemma no_model_available:
  assumes "configure g api_key w = (Inr u, w1)"
    and "GenerativeModel g preferred_model w1 = (Inl e, w2)"
    and "list_models g w2 = (Inr models, w3)"
    and "available_models models = []"
  shows "initialize_ai g api_key w = (Inl e, w3)"
    and "calls_made g api_key w = [Configure api_key, Bind preferred_model, ListModels]"
  using assms by (simp_all add: initialize_ai_def calls_made_def recording_genai_def)

lemma fallback_binds_first:
  assumes "configure g api_key w = (Inr u, w1)"
    and "GenerativeModel g preferred_model w1 = (Inl e, w2)"
    and "list_models g w2 = (Inr models, w3)"
    and "available_models models = first # others"
  shows "initialize_ai g api_key w = GenerativeModel g first w3"
    and "calls_made g api_key w =
           [Configure api_key, Bind preferred_model, ListModels, Bind first]"
  using assms
  by (simp_all add: initialize_ai_def calls_made_def recording_genai_def split: prod.splits)

lemma available_models_first:
  assumes "\<forall>x \<in> set skipped. \<forall>xs. supported_generation_methods x = Some xs \<longrightarrow>
      str ''generateContent'' \<notin> set xs"
    and "supported_generation_methods m = Some ms" and "str ''generateContent'' \<in> set ms"
  shows "available_models (skipped @ m # others) = name m # available_models others"
  using assms by (induction skipped) (auto simp: available_models_def split: option.splits)

section \<open>Cleaning the text of a response\<close>

lemma strip_append_ws_left: "list_all isspace w \<Longrightarrow> strip (w @ s) = strip s"
  by (simp add: strip_def list_all_iff dropWhile_append2)

lemma strip_append_ws_right:
  assumes "list_all isspace w"
  shows "strip (s @ w) = strip s"
proof (cases "list_all isspace s")
  case True
  then have "\<forall>x\<in>set (s @ w). isspace x" and "\<forall>x\<in>set s. isspace x"
    using assms by (auto simp: list_all_iff)
  then have "dropWhile isspace (s @ w) = []" and "dropWhile isspace s = []"
    by (simp_all only: dropWhile_eq_Nil_conv)
  then have "strip (s @ w) = []" and "strip s = []"
    unfolding strip_def by (simp_all only: rev.simps dropWhile.simps)
  then show ?thesis by simp
next
  case False
  then obtain x where "x \<in> set s" "\<not> isspace x"
    by (auto simp: list_all_iff)
  then have 1: "dropWhile isspace (s @ w) = dropWhile isspace s @ w"
    by (rule dropWhile_append1)
  have 2: "dropWhile isspace (rev w @ rev (dropWhile isspace s)) =
      dropWhile isspace (rev (dropWhile isspace s))"
    by (rule dropWhile_append2) (use assms in \<open>simp add: list_all_iff\<close>)
  show ?thesis
    by (simp add: strip_def 1 2)
qed

lemma strip_id:
  assumes "s = [] \<or> (\<not> isspace (hd s) \<and> \<not> isspace (last s))"
  shows "strip s = s"
proof (cases "s = []")
  case True
  then show ?thesis by (simp add: strip_def)
next
  case False
  with assms have h: "\<not> isspace (hd s)" and l: "\<not> isspace (last s)" by auto
  from False h have 1: "dropWhile isspace s = s"
    by (cases s) auto
  from False l have 2: "dropWhile isspace (rev s) = rev s"
    by (cases "rev s") (auto simp: hd_rev dest: arg_cong [where f = hd])
  show ?thesis by (simp add: strip_def 1 2)
qed

lemma last_dropWhile: "dropWhile P xs \<noteq> [] \<Longrightarrow> last (dropWhile P xs) = last xs"
  by (metis last_appendR takeWhile_dropWhile_id)

lemma strip_ends:
  "strip s = [] \<or> (\<not> isspace (hd (strip s)) \<and> \<not> isspace (last (strip s)))"
proof (cases "strip s = []")
  case True
  then show ?thesis by simp
next
  case False
  let ?d = "dropWhile isspace s"
  let ?e = "dropWhile isspace (rev ?d)"
  have s: "strip s = rev ?e" by (simp add: strip_def)
  with False have e: "?e \<noteq> []" by simp
  then have d: "?d \<noteq> []" by (metis dropWhile.simps(1) rev.simps(1))
  have "\<not> isspace (hd ?e)" using e by (rule hd_dropWhile)
  then have l: "\<not> isspace (last (strip s))" using e by (simp add: s last_rev)
  have "last ?e = last (rev ?d)" using e by (rule last_dropWhile)
  also have "\<dots> = hd ?d" using d by (simp add: last_rev)
  finally have "hd (strip s) = hd ?d" using e by (simp add: s hd_rev)
  moreover have "\<not> isspace (hd ?d)" using d by (rule hd_dropWhile)
  ultimately show ?thesis using l by simp
qed

lemma strip_idem: "strip (strip s) = strip s"
  using strip_ends [of s] by (rule strip_id)

lemma removeprefix_append: "removeprefix (p @ r) p = r"
  by (simp add: removeprefix_def startswith_def)

lemma removesuffix_append: "x \<noteq> [] \<Longrightarrow> removesuffix (r @ x) x = r"
  by (simp add: removesuffix_def endswith_def)

lemma clean_text_unfenced:
  "\<not> startswith (strip t) (str ''```json'') \<Longrightarrow> \<not> endswith (strip t) (str ''```'') \<Longrightarrow>
     clean_text t = strip t"
  by (simp add: clean_text_def removeprefix_def removesuffix_def strip_idem)

lemma isspace_backtick: "\<not> isspace 96"
  by (simp add: isspace_def)

lemma strip_between_backticks:
  assumes "list_all isspace w1" and "list_all isspace w4"
  shows "strip (w1 @ (96 # m @ [96]) @ w4) = 96 # m @ [96]"
proof -
  have "strip (w1 @ (96 # m @ [96]) @ w4) = strip ((96 # m @ [96]) @ w4)"
    using assms(1) by (rule strip_append_ws_left)
  also have "\<dots> = strip (96 # m @ [96])"
    using assms(2) by (rule strip_append_ws_right)
  also have "\<dots> = 96 # m @ [96]"
    by (rule strip_id) (simp add: isspace_backtick)
  finally show ?thesis .
qed

lemma clean_text_json_fence:
  assumes "list_all isspace w1" and "list_all isspace w2" and "list_all isspace w3"
    and "list_all isspace w4"
  shows "clean_text (w1 @ str ''```json'' @ w2 @ t @ w3 @ str ''```'' @ w4) = strip t"
proof -
  let ?m = "str ''``json'' @ w2 @ t @ w3 @ str ''``''"
  have e: "w1 @ str ''```json'' @ w2 @ t @ w3 @ str ''```'' @ w4 = w1 @ (96 # ?m @ [96]) @ w4"
    by (simp add: str_def)
  have "strip (w1 @ (96 # ?m @ [96]) @ w4) = 96 # ?m @ [96]"
    using assms(1,4) by (rule strip_between_backticks)
  also have "\<dots> = str ''```json'' @ ((w2 @ t @ w3) @ str ''```'')"
    by (simp add: str_def)
  finally have s: "strip (w1 @ str ''```json'' @ w2 @ t @ w3 @ str ''```'' @ w4) =
      str ''```json'' @ ((w2 @ t @ w3) @ str ''```'')"
    by (simp only: e)
  have n: "str ''```'' \<noteq> []" by (simp add: str_def)
  have "strip (w2 @ t @ w3) = strip t"
    using assms(2,3) by (simp add: strip_append_ws_left strip_append_ws_right)
  then show ?thesis
    unfolding clean_text_def s removeprefix_append removesuffix_append [OF n] .
qed

lemma scan_once_backtick: "scan_once m d (96 # s) = Inl JSONDecodeError"
  by (simp add: scan_once.simps(2) match_number_def int_part_def is_digit_def)

lemma json_loads_backtick: "json_loads lim (96 # s) = Inl JSONDecodeError"
  by (simp add: json_loads_def startswith_def skip_ws_def is_json_ws_def scan_once_backtick)

lemma json_loads_empty: "json_loads lim [] = Inl JSONDecodeError"
  by (simp add: json_loads_def startswith_def skip_ws_def)

lemma strip_whitespace: "list_all isspace t \<Longrightarrow> strip t = []"
proof -
  assume "list_all isspace t"
  then have d: "dropWhile isspace t = []"
    by (simp only: dropWhile_eq_Nil_conv list_all_iff)
  show ?thesis unfolding strip_def d by simp
qed

lemma clean_text_of_empty_strip: "strip t = [] \<Longrightarrow> clean_text t = []"
proof -
  assume st: "strip t = []"
  have "removeprefix [] (str ''```json'') = []"
    by (simp add: removeprefix_def startswith_def str_def)
  moreover have "removesuffix [] (str ''```'') = []"
    by (simp add: removesuffix_def endswith_def str_def)
  moreover have "strip [] = []"
    by (simp add: strip_def)
  ultimately show ?thesis
    by (simp only: clean_text_def st)
qed

lemma startswith_before_backticks:
  assumes "startswith (body @ [96, 96, 96]) [106, 115, 111, 110]"
  shows "startswith body [106, 115, 111, 110]"
proof -
  have 0: "body \<noteq> []"
    using assms by (auto simp: startswith_eval)
  then obtain a b1 where 1: "body = a # b1" by (cases body) auto
  have "b1 \<noteq> []"
    using assms unfolding 1 by (auto simp: startswith_eval split: if_splits)
  then obtain b b2 where 2: "b1 = b # b2" by (cases b1) auto
  have "b2 \<noteq> []"
    using assms unfolding 1 2 by (auto simp: startswith_eval split: if_splits)
  then obtain c b3 where 3: "b2 = c # b3" by (cases b2) auto
  have "b3 \<noteq> []"
    using assms unfolding 1 2 3 by (auto simp: startswith_eval split: if_splits)
  then obtain d b4 where 4: "b3 = d # b4" by (cases b3) auto
  show ?thesis
    using assms unfolding 1 2 3 4 by (auto simp: startswith_eval split: if_splits)
qed

lemma not_startswith_fence:
  assumes "\<not> startswith body (str ''json'')"
  shows "\<not> startswith (str ''```'' @ body @ str ''```'') (str ''```json'')"
  using assms startswith_before_backticks [of body]
  by (auto simp: str_def startswith_eval)

lemma clean_text_plain_fence:
  assumes "list_all isspace w1" and "list_all isspace w4"
    and "\<not> startswith body (str ''json'')"
  shows "\<exists>r. clean_text (w1 @ str ''```'' @ body @ str ''```'' @ w4) = str ''```'' @ r"
proof -
  let ?m = "str ''``'' @ body @ str ''``''"
  have e: "w1 @ str ''```'' @ body @ str ''```'' @ w4 = w1 @ (96 # ?m @ [96]) @ w4"
    by (simp add: str_def)
  have "strip (w1 @ (96 # ?m @ [96]) @ w4) = 96 # ?m @ [96]"
    using assms(1,2) by (rule strip_between_backticks)
  also have "\<dots> = str ''```'' @ body @ str ''```''"
    by (simp add: str_def)
  finally have s: "strip (w1 @ str ''```'' @ body @ str ''```'' @ w4) =
      str ''```'' @ body @ str ''```''"
    by (simp only: e)
  have n: "str ''```'' \<noteq> []" by (simp add: str_def)
  have p: "removeprefix (str ''```'' @ body @ str ''```'') (str ''```json'') =
      str ''```'' @ body @ str ''```''"
    using not_startswith_fence [OF assms(3)] by (simp add: removeprefix_def)
  have "removesuffix ((str ''```'' @ body) @ str ''```'') (str ''```'') = str ''```'' @ body"
    using n by (rule removesuffix_append)
  then have q: "removesuffix (str ''```'' @ body @ str ''```'') (str ''```'') = str ''```'' @ body"
    by simp
  have c: "clean_text (w1 @ str ''```'' @ body @ str ''```'' @ w4) = strip (str ''```'' @ body)"
    by (simp only: clean_text_def s p q)
  have "strip (str ''```'' @ body) =
      rev (dropWhile isspace (rev body @ [96, 96, 96]))"
    by (simp add: strip_def str_def isspace_backtick)
  also have "\<dots> = rev (dropWhile isspace (rev body) @ [96, 96, 96])"
    using dropWhile_append3 [of isspace 96 "rev body" "[96, 96]"]
    by (simp add: isspace_backtick)
  also have "\<dots> = str ''```'' @ rev (dropWhile isspace (rev body))"
    by (simp add: str_def)
  finally show ?thesis using c by metis
qed

text \<open>Rules that evaluate the decoder and the cleaning of a text on a literal.\<close>

lemmas json_eval =
  json_loads_def skip_ws_def is_json_ws_def startswith_eval scan_once.simps(2) array_loop.simps
  object_loop.simps match_number_def int_part_def frac_part_def exp_part_def exp_sign_def
  is_digit_def digits_value_def dict_def hexval_def decode_u_def backslash_def Let_def
  parse_int_def too_many_digits_def default_limits_def

lemmas clean_eval =
  clean_text_def strip_def isspace_def removeprefix_def removesuffix_def endswith_def

section \<open>What the decoder consumes\<close>

text \<open>
  A successful read consumes a nonempty head of the text and does not depend on what
  follows it: the same head followed by another text is read to the same value. For a
  number the text that follows must not continue it. This is what relates decoding a
  text to decoding it once the whitespace around it is gone.
\<close>

subsection \<open>Whitespace and string literals\<close>

lemma skip_ws_split: "\<exists>w. s = w @ skip_ws s \<and> list_all is_json_ws w"
proof -
  have "s = takeWhile is_json_ws s @ skip_ws s"
    by (simp add: skip_ws_def)
  moreover have "list_all is_json_ws (takeWhile is_json_ws s)"
    by (simp add: list_all_iff) (meson set_takeWhileD)
  ultimately show ?thesis by blast
qed

lemma skip_ws_hd: "skip_ws s = c # r \<Longrightarrow> \<not> is_json_ws c"
  using hd_dropWhile [of is_json_ws s] by (simp add: skip_ws_def)

lemma skip_ws_append:
  "list_all is_json_ws w \<Longrightarrow> t = [] \<or> \<not> is_json_ws (hd t) \<Longrightarrow> skip_ws (w @ t) = t"
  by (cases t) (auto simp: skip_ws_def list_all_iff dropWhile_append2)

lemma skip_ws_Cons: "\<not> is_json_ws c \<Longrightarrow> skip_ws (c # s) = c # s"
  by (simp add: skip_ws_def)

lemma hex4_append: "hex4 a = Some (u, b) \<Longrightarrow> hex4 (a @ z) = Some (u, b @ z)"
  by (induction a rule: hex4.induct) (auto split: option.splits)

lemma hex4_split: "hex4 a = Some (u, b) \<Longrightarrow> \<exists>h. a = h @ b \<and> length h = 4"
  by (induction a rule: hex4.induct) (auto split: option.splits)

lemma hex4_prefix:
  "hex4 a = Some (u, b) \<Longrightarrow> \<exists>h. a = h @ b \<and> length h = 4 \<and> (\<forall>z. hex4 (h @ z) = Some (u, z))"
  by (induction a rule: hex4.induct) (auto split: option.splits)

lemma scanstring_backslash_only: "scanstring [92] = None"
  by simp

lemma scanstring_u_needs_hex:
  assumes "scanstring (92 # 117 # x) \<noteq> None"
  shows "\<exists>u b. hex4 x = Some (u, b)"
proof -
  from assms have "decode_u x \<noteq> None"
    by (auto split: option.splits)
  then show ?thesis
    by (auto simp: decode_u_def split: option.splits)
qed

lemma take2_stable:
  assumes "c1 \<noteq> []" and "scanstring (c1 @ []) \<noteq> None"
  shows "(take 2 (c1 @ r') = [92, 117]) = (take 2 (c1 @ r) = [92, 117])"
proof (cases c1)
  case Nil
  with assms show ?thesis by simp
next
  case (Cons x c1')
  show ?thesis
  proof (cases c1')
    case Nil
    with Cons assms(2) have "x \<noteq> 92"
      by (auto split: if_splits)
    with Cons Nil show ?thesis by (cases r; cases r') auto
  next
    case (Cons y c1'')
    with \<open>c1 = x # c1'\<close> show ?thesis by simp
  qed
qed

lemma decode_u_stable:
  assumes d: "decode_u s = Some (ch, c1 @ r)" and ne: "c1 \<noteq> []"
    and sc: "scanstring (c1 @ []) \<noteq> None"
  shows "\<exists>h. s = h @ c1 @ r \<and> (\<forall>r'. decode_u (h @ c1 @ r') = Some (ch, c1 @ r'))"
proof -
  from d obtain uni sA where hx: "hex4 s = Some (uni, sA)"
    by (auto simp: decode_u_def split: option.splits)
  from hex4_prefix [OF hx] obtain h4 where h4: "s = h4 @ sA"
    and h4z: "\<And>z. hex4 (h4 @ z) = Some (uni, z)" by blast
  show ?thesis
  proof (cases "0xD800 \<le> uni \<and> uni \<le> 0xDBFF \<and> take 2 sA = [92, 117]")
    case False
    with d hx have r: "ch = uni" "sA = c1 @ r"
      by (auto simp: decode_u_def)
    have "decode_u (h4 @ c1 @ r') = Some (ch, c1 @ r')" for r'
    proof -
      have "\<not> (0xD800 \<le> uni \<and> uni \<le> 0xDBFF \<and> take 2 (c1 @ r') = [92, 117])"
        using False r(2) take2_stable [OF ne sc, of r' r] by simp
      then show ?thesis
        using h4z [of "c1 @ r'"] r(1) by (auto simp: decode_u_def)
    qed
    with h4 r(2) show ?thesis by blast
  next
    case True
    then have hi: "0xD800 \<le> uni \<and> uni \<le> 0xDBFF" and t2: "take 2 sA = [92, 117]" by auto
    with d hx obtain uni2 sB where hx2: "hex4 (drop 2 sA) = Some (uni2, sB)"
      by (auto simp: decode_u_def split: option.splits)
    from hex4_prefix [OF hx2] obtain k4 where k4: "drop 2 sA = k4 @ sB"
      and k4z: "\<And>z. hex4 (k4 @ z) = Some (uni2, z)" by blast
    have sA: "sA = [92, 117] @ k4 @ sB"
      using t2 k4 append_take_drop_id [of 2 sA] by simp
    show ?thesis
    proof (cases "0xDC00 \<le> uni2 \<and> uni2 \<le> 0xDFFF")
      case low: True
      with d hx hi t2 hx2 have r: "ch = 0x10000 + ((uni - 0xD800) * 1024 + (uni2 - 0xDC00))"
        "sB = c1 @ r"
        by (auto simp: decode_u_def)
      have "decode_u ((h4 @ [92, 117] @ k4) @ c1 @ r') = Some (ch, c1 @ r')" for r'
        using h4z [of "[92, 117] @ k4 @ c1 @ r'"] k4z [of "c1 @ r'"] hi low r(1)
        by (simp add: decode_u_def)
      moreover have "s = (h4 @ [92, 117] @ k4) @ c1 @ r"
        using h4 sA r(2) by simp
      ultimately show ?thesis by blast
    next
      case nolow: False
      with d hx hi t2 hx2 have r: "ch = uni" "sA = c1 @ r"
        by (auto simp: decode_u_def)
      have "\<exists>c1''. c1 = 92 # 117 # c1''"
      proof (cases c1)
        case Nil
        with ne show ?thesis by simp
      next
        case (Cons x c1')
        show ?thesis
        proof (cases c1')
          case Nil
          with Cons t2 r(2) have "c1 = [92]" by (cases r) auto
          with sc show ?thesis by simp
        next
          case c: (Cons y c1'')
          with Cons t2 r(2) show ?thesis by simp
        qed
      qed
      then obtain c1'' where c1: "c1 = 92 # 117 # c1''" by blast
      with sc obtain u' b' where hx3: "hex4 c1'' = Some (u', b')"
        using scanstring_u_needs_hex [of c1''] by auto
      have "hex4 (c1'' @ r) = Some (u', b' @ r)"
        using hx3 by (rule hex4_append)
      moreover have "drop 2 sA = c1'' @ r"
        using r(2) c1 by simp
      ultimately have u': "u' = uni2" using hx2 by simp
      have "decode_u (h4 @ c1 @ r') = Some (ch, c1 @ r')" for r'
      proof -
        have "hex4 (drop 2 (c1 @ r')) = Some (uni2, b' @ r')"
          using hex4_append [OF hx3, of r'] u' c1 by simp
        moreover have "take 2 (c1 @ r') = [92, 117]"
          using c1 by simp
        ultimately show ?thesis
          using h4z [of "c1 @ r'"] hi nolow r(1) by (simp add: decode_u_def)
      qed
      with h4 r(2) show ?thesis by blast
    qed
  qed
qed

lemma decode_escape_stable:
  assumes d: "decode_escape s = Some (ch, c1 @ r)" and ne: "c1 \<noteq> []"
    and sc: "scanstring (c1 @ []) \<noteq> None"
  shows "\<exists>h. s = h @ c1 @ r \<and> (\<forall>r'. decode_escape (h @ c1 @ r') = Some (ch, c1 @ r'))"
proof (cases s)
  case Nil
  with d show ?thesis by simp
next
  case (Cons e s')
  show ?thesis
  proof (cases "e = 117")
    case True
    with d Cons have "decode_u s' = Some (ch, c1 @ r)" by simp
    from decode_u_stable [OF this ne sc] obtain h where "s' = h @ c1 @ r"
      and "\<And>r'. decode_u (h @ c1 @ r') = Some (ch, c1 @ r')" by blast
    then have "s = (e # h) @ c1 @ r"
      and "\<And>r'. decode_escape ((e # h) @ c1 @ r') = Some (ch, c1 @ r')"
      using Cons True by simp_all
    then show ?thesis by blast
  next
    case False
    with d Cons have "backslash e = Some ch" and "s' = c1 @ r"
      by (auto split: option.splits)
    then have "s = [e] @ c1 @ r"
      and "\<And>r'. decode_escape ([e] @ c1 @ r') = Some (ch, c1 @ r')"
      using Cons False by simp_all
    then show ?thesis by blast
  qed
qed

lemma scanstring_consumes:
  "scanstring s = Some (t, r) \<Longrightarrow>
     \<exists>c. s = c @ r \<and> c \<noteq> [] \<and> last c = 34 \<and> (\<forall>r'. scanstring (c @ r') = Some (t, r'))"
proof (induction s arbitrary: t rule: scanstring.induct)
  case 1
  then show ?case by simp
next
  case (2 c s)
  show ?case
  proof (cases "c = 34")
    case True
    with "2.prems" have "t = []" "r = s" by simp_all
    then have "c # s = [34] @ r \<and> [34] \<noteq> [] \<and> last [34] = (34::nat) \<and>
        (\<forall>r'. scanstring ([34] @ r') = Some (t, r'))"
      using True by simp
    then show ?thesis by blast
  next
    case n34: False
    show ?thesis
    proof (cases "c = 92")
      case True
      with "2.prems" n34 obtain ch s1 t' where de: "decode_escape s = Some (ch, s1)"
        and sc: "scanstring s1 = Some (t', r)" and t: "t = ch # t'"
        by (auto split: option.splits)
      from "2.IH"(1) [OF n34 True de refl sc]
      obtain c1 where c1: "s1 = c1 @ r" "c1 \<noteq> []" "last c1 = 34"
        and st: "\<And>r'. scanstring (c1 @ r') = Some (t', r')" by blast
      have "scanstring (c1 @ []) \<noteq> None" using st [of "[]"] by simp
      from decode_escape_stable [OF de [unfolded c1(1)] c1(2) this]
      obtain h where h: "s = h @ c1 @ r"
        and hs: "\<And>r'. decode_escape (h @ c1 @ r') = Some (ch, c1 @ r')" by blast
      have "c # s = (92 # h @ c1) @ r" using h True by simp
      moreover have "92 # h @ c1 \<noteq> []" by simp
      moreover have "last (92 # h @ c1) = 34" using c1(2,3) by simp
      moreover have "scanstring ((92 # h @ c1) @ r') = Some (t, r')" for r'
        using hs [of r'] st [of r'] t by simp
      ultimately show ?thesis by blast
    next
      case n92: False
      with "2.prems" n34 have c31: "\<not> c \<le> 31" by (auto split: if_splits)
      with "2.prems" n34 n92 obtain t' where sc: "scanstring s = Some (t', r)" and t: "t = c # t'"
        by (auto split: option.splits)
      from "2.IH"(2) [OF n34 n92 c31 sc]
      obtain c1 where c1: "s = c1 @ r" "c1 \<noteq> []" "last c1 = 34"
        and st: "\<And>r'. scanstring (c1 @ r') = Some (t', r')" by blast
      have "c # s = (c # c1) @ r" using c1(1) by simp
      moreover have "c # c1 \<noteq> []" by simp
      moreover have "last (c # c1) = 34" using c1(2,3) by simp
      moreover have "scanstring ((c # c1) @ r') = Some (t, r')" for r'
        using st [of r'] t n34 n92 c31 by simp
      ultimately show ?thesis by blast
    qed
  qed
qed

subsection \<open>Numbers\<close>

text \<open>
  A text is \<open>delimited\<close> when it is empty or starts with a character that cannot
  continue a number.
\<close>

definition number_char :: "nat \<Rightarrow> bool" where
  "number_char c \<longleftrightarrow> is_digit c \<or> c = 46 \<or> c = 101 \<or> c = 69"

definition delimited :: "pystr \<Rightarrow> bool" where
  "delimited r \<longleftrightarrow> (case r of [] \<Rightarrow> True | c # r' \<Rightarrow> \<not> number_char c)"

lemma span_digits_stop:
  assumes "list_all is_digit a" and "z = [] \<or> \<not> is_digit (hd z)"
  shows "takeWhile is_digit (a @ z) = a" and "dropWhile is_digit (a @ z) = z"
proof -
  have a: "\<And>x. x \<in> set a \<Longrightarrow> is_digit x"
    using assms(1) by (simp add: list_all_iff)
  have z: "takeWhile is_digit z = []" "dropWhile is_digit z = z"
    using assms(2) by (cases z; simp)+
  show "takeWhile is_digit (a @ z) = a"
    using a z(1) by (simp add: takeWhile_append2)
  show "dropWhile is_digit (a @ z) = z"
    using a z(2) by (simp add: dropWhile_append2)
qed

lemma takeWhile_digits: "list_all is_digit (takeWhile is_digit s)"
  by (simp add: list_all_iff) (meson set_takeWhileD)

lemma int_part_consumes:
  assumes "int_part s = Some (ip, s1)"
  shows "s = ip @ s1" and "ip \<noteq> []" and "list_all is_digit ip"
    and "z = [] \<or> \<not> is_digit (hd z) \<Longrightarrow> int_part (ip @ z) = Some (ip, z)"
proof -
  from assms obtain d r where s: "s = d # r" and d: "is_digit d"
    by (cases s) (auto simp: int_part_def is_digit_def split: if_splits)
  show "s = ip @ s1" and "ip \<noteq> []" and "list_all is_digit ip"
    using assms s d takeWhile_digits [of r]
    by (auto simp: int_part_def split: if_splits)
  assume z: "z = [] \<or> \<not> is_digit (hd z)"
  show "int_part (ip @ z) = Some (ip, z)"
  proof (cases "d = 48")
    case True
    with assms s have "ip = [48]" by (simp add: int_part_def)
    then show ?thesis by (simp add: int_part_def)
  next
    case False
    with assms s d have ip: "ip = d # takeWhile is_digit r"
      by (simp add: int_part_def)
    show ?thesis
      using span_digits_stop [OF takeWhile_digits z, of r] False d
      by (simp add: ip int_part_def)
  qed
qed

lemma frac_part_consumes:
  assumes "frac_part s = (frac, s2)"
  shows "s = frac @ s2" and "frac = [] \<or> (hd frac = 46 \<and> is_digit (last frac))"
    and "z = [] \<or> \<not> is_digit (hd z) \<Longrightarrow> frac \<noteq> [] \<or> z = [] \<or> hd z \<noteq> 46 \<Longrightarrow>
         frac_part (frac @ z) = (frac, z)"
proof -
  show "s = frac @ s2"
    using assms by (cases s) (auto simp: frac_part_def split: if_splits)
  show "frac = [] \<or> (hd frac = 46 \<and> is_digit (last frac))"
  proof (cases s)
    case Nil
    with assms show ?thesis by (simp add: frac_part_def)
  next
    case (Cons c r)
    have "takeWhile is_digit r \<noteq> [] \<Longrightarrow> is_digit (last (takeWhile is_digit r))"
      using takeWhile_digits [of r] last_in_set [of "takeWhile is_digit r"]
      by (simp add: list_all_iff)
    with assms Cons show ?thesis
      by (auto simp: frac_part_def split: if_splits)
  qed
  assume z: "z = [] \<or> \<not> is_digit (hd z)" and f: "frac \<noteq> [] \<or> z = [] \<or> hd z \<noteq> 46"
  show "frac_part (frac @ z) = (frac, z)"
  proof (cases "frac = []")
    case True
    with f show ?thesis by (cases z) (auto simp: frac_part_def)
  next
    case False
    with assms obtain r where s: "s = 46 # r" and tw: "takeWhile is_digit r \<noteq> []"
      and frac: "frac = 46 # takeWhile is_digit r"
      by (cases s) (auto simp: frac_part_def split: if_splits)
    show ?thesis
      using span_digits_stop [OF takeWhile_digits z, of r] tw
      by (simp add: frac frac_part_def)
  qed
qed

lemma exp_part_consumes:
  assumes "exp_part s = (ex, s3)"
  shows "s = ex @ s3" and "ex = [] \<or> ((hd ex = 101 \<or> hd ex = 69) \<and> is_digit (last ex))"
    and "z = [] \<or> \<not> is_digit (hd z) \<Longrightarrow> ex \<noteq> [] \<or> z = [] \<or> (hd z \<noteq> 101 \<and> hd z \<noteq> 69) \<Longrightarrow>
         exp_part (ex @ z) = (ex, z)"
proof -
  have sg: "exp_sign r @ drop (length (exp_sign r)) r = r" for r
    by (cases r) (auto simp: exp_sign_def)
  show "s = ex @ s3"
  proof (cases s)
    case Nil
    with assms show ?thesis by (simp add: exp_part_def)
  next
    case (Cons e r)
    show ?thesis
    proof (cases "ex = []")
      case True
      with assms Cons show ?thesis by (auto simp: exp_part_def split: if_splits)
    next
      case False
      with assms Cons have "ex = e # exp_sign r @ takeWhile is_digit (drop (length (exp_sign r)) r)"
        and "s3 = dropWhile is_digit (drop (length (exp_sign r)) r)"
        by (auto simp: exp_part_def split: if_splits)
      then have "ex @ s3 = e # exp_sign r @ drop (length (exp_sign r)) r"
        by simp
      with sg [of r] Cons show ?thesis by simp
    qed
  qed
  show "ex = [] \<or> ((hd ex = 101 \<or> hd ex = 69) \<and> is_digit (last ex))"
  proof (cases s)
    case Nil
    with assms show ?thesis by (simp add: exp_part_def)
  next
    case (Cons e r)
    let ?tw = "takeWhile is_digit (drop (length (exp_sign r)) r)"
    have "?tw \<noteq> [] \<Longrightarrow> is_digit (last ?tw)"
      using takeWhile_digits [of "drop (length (exp_sign r)) r"] last_in_set [of ?tw]
      by (simp add: list_all_iff)
    with assms Cons show ?thesis
      by (auto simp: exp_part_def split: if_splits)
  qed
  assume z: "z = [] \<or> \<not> is_digit (hd z)"
    and f: "ex \<noteq> [] \<or> z = [] \<or> (hd z \<noteq> 101 \<and> hd z \<noteq> 69)"
  show "exp_part (ex @ z) = (ex, z)"
  proof (cases "ex = []")
    case True
    with f show ?thesis by (cases z) (auto simp: exp_part_def)
  next
    case False
    with assms obtain e r where s: "s = e # r" and e: "e = 101 \<or> e = 69"
      and tw: "takeWhile is_digit (drop (length (exp_sign r)) r) \<noteq> []"
      and ex: "ex = e # exp_sign r @ takeWhile is_digit (drop (length (exp_sign r)) r)"
      by (cases s) (auto simp: exp_part_def split: if_splits)
    let ?sg = "exp_sign r"
    let ?tw = "takeWhile is_digit (drop (length ?sg) r)"
    have twd: "is_digit (hd ?tw)"
      using tw takeWhile_digits [of "drop (length ?sg) r"] hd_in_set [of ?tw]
      by (simp add: list_all_iff)
    have es: "exp_sign (?sg @ ?tw @ z) = ?sg"
    proof (cases "?sg = []")
      case True
      then have "exp_sign (?tw @ z) = []"
        using tw twd by (cases ?tw) (auto simp: exp_sign_def is_digit_def)
      with True show ?thesis by simp
    next
      case False
      then show ?thesis
        by (cases r) (auto simp: exp_sign_def split: if_splits)
    qed
    show ?thesis
      using span_digits_stop [OF takeWhile_digits z, of "drop (length ?sg) r"] tw e es
      by (simp add: ex exp_part_def)
  qed
qed

lemma delimited_cases:
  "delimited z \<Longrightarrow> z = [] \<or> (\<not> is_digit (hd z) \<and> hd z \<noteq> 46 \<and> hd z \<noteq> 101 \<and> hd z \<noteq> 69)"
  by (cases z) (auto simp: delimited_def number_char_def)

lemma match_number_eq:
  assumes "int_part (if take 1 s = [45] then drop 1 s else s) = Some (ip, s1)"
    and "frac_part s1 = (frac, s2)" and "exp_part s2 = (ex, s3)"
  shows "match_number s = Some (((if take 1 s = [45] then [45] else []) @ ip, frac, ex), s3)"
  using assms by (simp add: match_number_def)

lemma match_number_consumes:
  assumes "match_number s = Some (g, r)"
  shows "\<exists>c. s = c @ r \<and> c \<noteq> [] \<and> is_digit (last c) \<and>
    (\<forall>r'. delimited r' \<longrightarrow> match_number (c @ r') = Some (g, r'))"
proof -
  let ?neg = "take 1 s = [45]"
  let ?sg = "if ?neg then [45] else []"
  let ?s' = "if ?neg then drop 1 s else s"
  have s: "s = ?sg @ ?s'"
  proof (cases "take 1 s = [45]")
    case True
    then have "s = [45] @ drop 1 s"
      by (metis append_take_drop_id)
    with True show ?thesis by simp
  next
    case False
    then show ?thesis by simp
  qed
  from assms obtain ip s1 where ip: "int_part ?s' = Some (ip, s1)"
    by (auto simp: match_number_def split: option.splits)
  obtain frac s2 where fr: "frac_part s1 = (frac, s2)" by (cases "frac_part s1")
  obtain ex s3 where ex: "exp_part s2 = (ex, s3)" by (cases "exp_part s2")
  from assms have g: "g = (?sg @ ip, frac, ex)" and r: "r = s3"
    unfolding match_number_eq [OF ip fr ex] by simp_all
  note i = int_part_consumes [OF ip]
  note f = frac_part_consumes [OF fr]
  note e = exp_part_consumes [OF ex]
  let ?c = "?sg @ ip @ frac @ ex"
  have c: "s = ?c @ r"
    using s i(1) f(1) e(1) r by (cases "take 1 s = [45]") auto
  have ne: "?c \<noteq> []" using i(2) by simp
  have dig: "\<not> is_digit 46" "\<not> is_digit 101" "\<not> is_digit 69"
    by (simp_all add: is_digit_def)
  have ipd: "is_digit (last ip)" and iph: "is_digit (hd ip)"
    using i(2,3) last_in_set [of ip] hd_in_set [of ip] by (simp_all add: list_all_iff)
  have last: "is_digit (last ?c)"
    using i(2) ipd f(2) e(2) by (cases "ex = []"; cases "frac = []") auto
  have "match_number (?c @ r') = Some (g, r')" if d: "delimited r'" for r'
  proof -
    note dc = delimited_cases [OF d]
    let ?z2 = "ex @ r'"
    let ?z1 = "frac @ ex @ r'"
    have B1: "?z2 = [] \<or> \<not> is_digit (hd ?z2)"
      using dc e(2) dig by (cases "ex = []") auto
    have B2: "frac \<noteq> [] \<or> ?z2 = [] \<or> hd ?z2 \<noteq> 46"
      using dc e(2) by (cases "ex = []") auto
    have A: "?z1 = [] \<or> \<not> is_digit (hd ?z1)"
      using B1 f(2) dig by (cases "frac = []") auto
    have C1: "r' = [] \<or> \<not> is_digit (hd r')" using dc by auto
    have C2: "ex \<noteq> [] \<or> r' = [] \<or> (hd r' \<noteq> 101 \<and> hd r' \<noteq> 69)" using dc by auto
    have 1: "int_part (ip @ ?z1) = Some (ip, ?z1)" using A by (rule i(4))
    have 2: "frac_part (frac @ ?z2) = (frac, ?z2)" using B1 B2 by (rule f(3))
    have 3: "exp_part (ex @ r') = (ex, r')" using C1 C2 by (rule e(3))
    have h45: "\<not> is_digit 45" by (simp add: is_digit_def)
    have neg: "(take 1 (?c @ r') = [45]) = ?neg"
    proof (cases ?neg)
      case True
      then show ?thesis by simp
    next
      case False
      then have "take 1 (?c @ r') = [hd ip]"
        using i(2) by (cases ip) auto
      with iph h45 False show ?thesis by auto
    qed
    have rest: "(if take 1 (?c @ r') = [45] then drop 1 (?c @ r') else ?c @ r') = ip @ ?z1"
      unfolding neg by (cases ?neg) auto
    have one: "int_part (if take 1 (?c @ r') = [45] then drop 1 (?c @ r') else ?c @ r') =
        Some (ip, ?z1)"
      unfolding rest by (rule 1)
    show ?thesis
      unfolding match_number_eq [OF one 2 3] neg g by (rule refl)
  qed
  with c ne last show ?thesis by blast
qed

subsection \<open>Values\<close>

text \<open>
  \<open>consumes p s v r\<close>: the reader \<open>p\<close> reads \<open>v\<close> from a nonempty head of \<open>s\<close> and leaves
  \<open>r\<close>; the head ends with neither whitespace nor a backtick, and followed by any
  delimited text it is read to \<open>v\<close> again.
\<close>

definition consumes :: "(pystr \<Rightarrow> exn + json \<times> pystr) \<Rightarrow> pystr \<Rightarrow> json \<Rightarrow> pystr \<Rightarrow> bool" where
  "consumes p s v r \<longleftrightarrow>
     (\<exists>c. s = c @ r \<and> c \<noteq> [] \<and> \<not> isspace (last c) \<and> last c \<noteq> 96 \<and>
        (\<forall>r'. delimited r' \<longrightarrow> p (c @ r') = Inr (v, r')))"

lemma consumesI:
  assumes "s = c @ r" and "c \<noteq> []" and "\<not> isspace (last c)" and "last c \<noteq> 96"
    and "\<And>r'. delimited r' \<Longrightarrow> p (c @ r') = Inr (v, r')"
  shows "consumes p s v r"
  unfolding consumes_def using assms by blast

lemma consumesE:
  assumes "consumes p s v r"
  obtains c where "s = c @ r" and "c \<noteq> []" and "\<not> isspace (last c)" and "last c \<noteq> 96"
    and "\<And>r'. delimited r' \<Longrightarrow> p (c @ r') = Inr (v, r')"
  using assms unfolding consumes_def by blast

lemma delimited_ws:
  assumes "list_all is_json_ws w" and "\<not> number_char ch"
  shows "delimited (w @ ch # x)"
proof (cases w)
  case Nil
  with assms(2) show ?thesis by (simp add: delimited_def)
next
  case (Cons a w')
  with assms(1) have "is_json_ws a" by simp
  then have "\<not> number_char a"
    by (auto simp: is_json_ws_def number_char_def is_digit_def)
  with Cons show ?thesis by (simp add: delimited_def)
qed

lemma not_number_char: "\<not> number_char 93" "\<not> number_char 44" "\<not> number_char 125"
  by (simp_all add: number_char_def is_digit_def)

lemma not_ws: "\<not> is_json_ws 93" "\<not> is_json_ws 44" "\<not> is_json_ws 125" "\<not> is_json_ws 58"
  "\<not> is_json_ws 34"
  by (simp_all add: is_json_ws_def)

lemma skip_ws_over: "list_all is_json_ws w \<Longrightarrow> \<not> is_json_ws c \<Longrightarrow> skip_ws (w @ c # x) = c # x"
  by (rule skip_ws_append) simp_all

lemma skip_ws_obtain:
  obtains w where "s = w @ skip_ws s" and "list_all is_json_ws w"
  using skip_ws_split [of s] by blast

lemma scan_once_literal:
  "scan_once m d (str ''null'' @ r) = Inr (JNull, r)"
  "scan_once m d (str ''true'' @ r) = Inr (JBool True, r)"
  "scan_once m d (str ''false'' @ r) = Inr (JBool False, r)"
  "scan_once m d (str ''NaN'' @ r) = Inr (JFloat (str ''NaN''), r)"
  "scan_once m d (str ''Infinity'' @ r) = Inr (JFloat (str ''Infinity''), r)"
  "scan_once m d (str ''-Infinity'' @ r) = Inr (JFloat (str ''-Infinity''), r)"
  by (simp_all add: str_def scan_once.simps(2) match_number_def int_part_def is_digit_def)

lemma take_eq_split: "take n s = p \<Longrightarrow> length p = n \<Longrightarrow> s = p @ drop n s"
  by (metis append_take_drop_id)

lemma good_end: "\<not> isspace 34" "\<not> isspace 93" "\<not> isspace 125" "\<not> isspace 108"
  "\<not> isspace 101" "\<not> isspace 78" "\<not> isspace 121"
  by (simp_all add: isspace_def)

lemma digit_good_end: "is_digit x \<Longrightarrow> \<not> isspace x \<and> x \<noteq> 96"
  by (auto simp: is_digit_def isspace_def)

lemma int_part_hd: "int_part (c # s) = Some res \<Longrightarrow> is_digit c"
  by (auto simp: int_part_def is_digit_def split: if_splits)

lemma match_number_hd:
  assumes "match_number (c # s) = Some res"
  shows "is_digit c \<or> c = 45"
proof (cases "c = 45")
  case True
  then show ?thesis by simp
next
  case False
  with assms obtain x where "int_part (c # s) = Some x"
    by (auto simp: match_number_def split: option.splits)
  then show ?thesis using int_part_hd by blast
qed

lemma scan_once_number:
  assumes "match_number (c # s) = Some (g, r)"
  shows "scan_once m d (c # s) =
    (case number_value m g of Inl e \<Rightarrow> Inl e | Inr v \<Rightarrow> Inr (v, r))"
proof -
  from match_number_hd [OF assms] have "is_digit c \<or> c = 45" .
  then have "c \<noteq> 34" "c \<noteq> 123" "c \<noteq> 91" "c \<noteq> 110" "c \<noteq> 116" "c \<noteq> 102"
    by (auto simp: is_digit_def)
  then show ?thesis
    using assms by (simp add: scan_once.simps(2))
qed

lemma scan_once_open_depth:
  assumes "scan_once m d (c # s) = Inr res" and "c = 123 \<or> c = 91"
  shows "d \<noteq> 0"
  using assms by (auto simp: scan_once.simps(2) split: if_splits)

lemma scan_once_string_consumes:
  assumes sc: "scan_once m d (34 # s0) = Inr (v, r)"
  shows "consumes (scan_once m d) (34 # s0) v r"
proof -
  from sc obtain t where st: "scanstring s0 = Some (t, r)" and v: "v = JString t"
    by (auto simp: scan_once.simps(2) split: option.splits)
  from scanstring_consumes [OF st] obtain c1 where c1: "s0 = c1 @ r" "c1 \<noteq> []" "last c1 = 34"
    and stable: "\<And>r'. scanstring (c1 @ r') = Some (t, r')" by blast
  show ?thesis
  proof (rule consumesI [where c = "34 # c1"])
    show "34 # s0 = (34 # c1) @ r" using c1(1) by simp
    show "34 # c1 \<noteq> []" by simp
    show "\<not> isspace (last (34 # c1))" using c1(2,3) good_end by simp
    show "last (34 # c1) \<noteq> 96" using c1(2,3) by simp
    show "scan_once m d ((34 # c1) @ r') = Inr (v, r')" for r'
      using stable [of r'] v by (simp add: scan_once.simps(2))
  qed
qed

lemma scan_once_object_unfold:
  "d \<noteq> 0 \<Longrightarrow> scan_once m d (123 # s0) =
     (if take 1 (skip_ws s0) = [125] then Inr (JObject [], drop 1 (skip_ws s0))
      else if take 1 (skip_ws s0) = [34] then object_loop m (d - 1) [] (drop 1 (skip_ws s0))
      else Inl JSONDecodeError)"
  by (simp add: scan_once.simps(2) Let_def)

lemma scan_once_array_unfold:
  "d \<noteq> 0 \<Longrightarrow> scan_once m d (91 # s0) =
     (if take 1 (skip_ws s0) = [93] then Inr (JArray [], drop 1 (skip_ws s0))
      else array_loop m (d - 1) [] (skip_ws s0))"
  by (simp add: scan_once.simps(2) Let_def)

lemma take1_eq: "take 1 s = [x] \<Longrightarrow> s = x # drop 1 s"
  by (cases s) auto

lemma scan_once_object_consumes:
  assumes IHo: "\<And>s' v r. length s' < length (123 # s0) \<Longrightarrow> object_loop m (d - 1) [] s' = Inr (v, r) \<Longrightarrow>
      consumes (object_loop m (d - 1) []) s' v r"
    and sc: "scan_once m d (123 # s0) = Inr (v, r)"
  shows "consumes (scan_once m d) (123 # s0) v r"
proof -
  obtain w where w: "s0 = w @ skip_ws s0" "list_all is_json_ws w"
    by (rule skip_ws_obtain)
  from sc have d0: "d \<noteq> 0" by (rule scan_once_open_depth) simp
  note sc' = sc [unfolded scan_once_object_unfold [OF d0]]
  show ?thesis
  proof (cases "take 1 (skip_ws s0) = [125]")
    case True
    with sc' have v: "v = JObject []" and r: "r = drop 1 (skip_ws s0)"
      by simp_all
    from take1_eq [OF True] have sk: "skip_ws s0 = 125 # r"
      using r by simp
    have s0: "s0 = w @ 125 # r" using w(1) sk by simp
    show ?thesis
    proof (rule consumesI [where c = "123 # w @ [125]"])
      show "123 # s0 = (123 # w @ [125]) @ r" using s0 by simp
      show "123 # w @ [125] \<noteq> []" by simp
      show "\<not> isspace (last (123 # w @ [125]))" using good_end by simp
      show "last (123 # w @ [125]) \<noteq> 96" by simp
      show "scan_once m d ((123 # w @ [125]) @ r') = Inr (v, r')" for r'
        using skip_ws_over [OF w(2) not_ws(3), of r'] v
        by (simp add: scan_once_object_unfold [OF d0])
    qed
  next
    case False
    with sc' have q: "take 1 (skip_ws s0) = [34]"
      and ol: "object_loop m (d - 1) [] (drop 1 (skip_ws s0)) = Inr (v, r)"
      by (simp_all split: if_splits)
    let ?s2 = "drop 1 (skip_ws s0)"
    from take1_eq [OF q] have sk: "skip_ws s0 = 34 # ?s2" .
    have "length (skip_ws s0) = Suc (length ?s2)"
      using arg_cong [OF sk, of length] by simp
    then have "length ?s2 < length (123 # s0)"
      using skip_ws_length [of s0] by simp
    from IHo [OF this ol, unfolded consumes_def] obtain c2 where c2: "?s2 = c2 @ r" "c2 \<noteq> []"
      "\<not> isspace (last c2)" "last c2 \<noteq> 96"
      and stable: "\<And>r'. delimited r' \<Longrightarrow> object_loop m (d - 1) [] (c2 @ r') = Inr (v, r')"
      by blast
    have s0: "s0 = w @ 34 # c2 @ r" using w(1) sk c2(1) by simp
    show ?thesis
    proof (rule consumesI [where c = "123 # w @ 34 # c2"])
      show "123 # s0 = (123 # w @ 34 # c2) @ r"
        using s0 by simp
      show "123 # w @ 34 # c2 \<noteq> []" by simp
      show "\<not> isspace (last (123 # w @ 34 # c2))" using c2(2,3) by simp
      show "last (123 # w @ 34 # c2) \<noteq> 96" using c2(2,4) by simp
      show "scan_once m d ((123 # w @ 34 # c2) @ r') = Inr (v, r')" if "delimited r'" for r'
        using skip_ws_over [OF w(2) not_ws(5), of "c2 @ r'"] stable [OF that]
        by (simp add: scan_once_object_unfold [OF d0])
    qed
  qed
qed

lemma scan_once_array_consumes:
  assumes IHa: "\<And>s' v r. length s' < length (91 # s0) \<Longrightarrow> array_loop m (d - 1) [] s' = Inr (v, r) \<Longrightarrow>
      consumes (array_loop m (d - 1) []) s' v r"
    and sc: "scan_once m d (91 # s0) = Inr (v, r)"
  shows "consumes (scan_once m d) (91 # s0) v r"
proof -
  obtain w where w: "s0 = w @ skip_ws s0" "list_all is_json_ws w"
    by (rule skip_ws_obtain)
  from sc have d0: "d \<noteq> 0" by (rule scan_once_open_depth) simp
  note sc' = sc [unfolded scan_once_array_unfold [OF d0]]
  show ?thesis
  proof (cases "take 1 (skip_ws s0) = [93]")
    case True
    with sc' have v: "v = JArray []" and r: "r = drop 1 (skip_ws s0)"
      by simp_all
    from take1_eq [OF True] have sk: "skip_ws s0 = 93 # r"
      using r by simp
    have s0: "s0 = w @ 93 # r" using w(1) sk by simp
    show ?thesis
    proof (rule consumesI [where c = "91 # w @ [93]"])
      show "91 # s0 = (91 # w @ [93]) @ r" using s0 by simp
      show "91 # w @ [93] \<noteq> []" by simp
      show "\<not> isspace (last (91 # w @ [93]))" using good_end by simp
      show "last (91 # w @ [93]) \<noteq> 96" by simp
      show "scan_once m d ((91 # w @ [93]) @ r') = Inr (v, r')" for r'
        using skip_ws_over [OF w(2) not_ws(1), of r'] v
        by (simp add: scan_once_array_unfold [OF d0])
    qed
  next
    case False
    with sc' have al: "array_loop m (d - 1) [] (skip_ws s0) = Inr (v, r)"
      by simp
    have "length (skip_ws s0) < length (91 # s0)"
      using skip_ws_length [of s0] by simp
    from IHa [OF this al, unfolded consumes_def] obtain c2 where c2: "skip_ws s0 = c2 @ r"
      "c2 \<noteq> []" "\<not> isspace (last c2)" "last c2 \<noteq> 96"
      and stable: "\<And>r'. delimited r' \<Longrightarrow> array_loop m (d - 1) [] (c2 @ r') = Inr (v, r')"
      by blast
    obtain x c2' where x: "c2 = x # c2'" using c2(2) by (cases c2) auto
    have xw: "\<not> is_json_ws x"
      using skip_ws_hd [of s0 x "c2' @ r"] c2(1) x by simp
    have x93: "x \<noteq> 93" using False c2(1) x by simp
    have s0: "s0 = w @ c2 @ r" using w(1) c2(1) by simp
    show ?thesis
    proof (rule consumesI [where c = "91 # w @ c2"])
      show "91 # s0 = (91 # w @ c2) @ r"
        using s0 by simp
      show "91 # w @ c2 \<noteq> []" by simp
      show "\<not> isspace (last (91 # w @ c2))" using c2(2,3) by simp
      show "last (91 # w @ c2) \<noteq> 96" using c2(2,4) by simp
      show "scan_once m d ((91 # w @ c2) @ r') = Inr (v, r')" if "delimited r'" for r'
      proof -
        have "skip_ws (w @ c2 @ r') = c2 @ r'"
          using skip_ws_over [OF w(2) xw, of "c2' @ r'"] x by simp
        moreover have "take 1 (c2 @ r') \<noteq> [93]" using x x93 by simp
        ultimately show ?thesis
          using stable [OF that] by (simp add: scan_once_array_unfold [OF d0])
      qed
    qed
  qed
qed

lemma scan_once_number_consumes:
  assumes mn: "match_number (c0 # s0) = Some (g, r)" and nv: "number_value m g = Inr v"
  shows "consumes (scan_once m d) (c0 # s0) v r"
proof -
  from match_number_consumes [OF mn] obtain c where c: "c0 # s0 = c @ r" "c \<noteq> []"
    "is_digit (last c)"
    and stable: "\<And>r'. delimited r' \<Longrightarrow> match_number (c @ r') = Some (g, r')"
    by blast
  obtain c' where c': "c = c0 # c'" using c(1,2) by (cases c) auto
  show ?thesis
  proof (rule consumesI [where c = c])
    show "c0 # s0 = c @ r" by (rule c(1))
    show "c \<noteq> []" by (rule c(2))
    show "\<not> isspace (last c)" using digit_good_end [OF c(3)] by simp
    show "last c \<noteq> 96" using digit_good_end [OF c(3)] by simp
    show "scan_once m d (c @ r') = Inr (v, r')" if "delimited r'" for r'
    proof -
      have "match_number (c0 # c' @ r') = Some (g, r')"
        using stable [OF that] c' by simp
      from scan_once_number [OF this, of m d] show ?thesis
        using nv c' by simp
    qed
  qed
qed

lemma literal_consumes:
  assumes "scan_once m d (lit @ r) = Inr (v, r)" and "\<And>r'. scan_once m d (lit @ r') = Inr (v, r')"
    and "lit \<noteq> []" and "\<not> isspace (last lit)" and "last lit \<noteq> 96"
  shows "consumes (scan_once m d) (lit @ r) v r"
  by (rule consumesI [where c = lit]) (use assms in simp_all)

lemma scan_once_other_unfold:
  assumes "c0 \<noteq> 34" and "c0 \<noteq> 123" and "c0 \<noteq> 91"
  shows "scan_once m d (c0 # s0) =
     (if c0 = 110 \<and> take 3 s0 = str ''ull'' then Inr (JNull, drop 3 s0)
      else if c0 = 116 \<and> take 3 s0 = str ''rue'' then Inr (JBool True, drop 3 s0)
      else if c0 = 102 \<and> take 4 s0 = str ''alse'' then Inr (JBool False, drop 4 s0)
      else
        (case match_number (c0 # s0) of
           Some (g, r) \<Rightarrow> (case number_value m g of Inl e \<Rightarrow> Inl e | Inr v \<Rightarrow> Inr (v, r))
         | None \<Rightarrow>
             if c0 = 78 \<and> take 2 s0 = str ''aN'' then Inr (JFloat (str ''NaN''), drop 2 s0)
             else if c0 = 73 \<and> take 7 s0 = str ''nfinity''
               then Inr (JFloat (str ''Infinity''), drop 7 s0)
             else if c0 = 45 \<and> take 8 s0 = str ''Infinity''
               then Inr (JFloat (str ''-Infinity''), drop 8 s0)
             else Inl JSONDecodeError))"
  using assms by (simp add: scan_once.simps(2))

lemma literal_split:
  assumes "take n s0 = str tl_lit" and "length tl_lit = n"
  shows "c0 # s0 = (c0 # str tl_lit) @ drop n s0"
proof -
  have "length (str tl_lit) = n" using assms(2) by (simp add: str_def)
  from take_eq_split [OF assms(1) this] show ?thesis by simp
qed

lemma literal_ends:
  "\<not> isspace (last (str ''null''))" "last (str ''null'') \<noteq> 96"
  "\<not> isspace (last (str ''true''))" "last (str ''true'') \<noteq> 96"
  "\<not> isspace (last (str ''false''))" "last (str ''false'') \<noteq> 96"
  "\<not> isspace (last (str ''NaN''))" "last (str ''NaN'') \<noteq> 96"
  "\<not> isspace (last (str ''Infinity''))" "last (str ''Infinity'') \<noteq> 96"
  "\<not> isspace (last (str ''-Infinity''))" "last (str ''-Infinity'') \<noteq> 96"
  "str ''null'' \<noteq> []" "str ''true'' \<noteq> []" "str ''false'' \<noteq> []" "str ''NaN'' \<noteq> []"
  "str ''Infinity'' \<noteq> []" "str ''-Infinity'' \<noteq> []"
  by (simp_all add: str_def isspace_def)

lemma literal_heads:
  "110 # str ''ull'' = str ''null''" "116 # str ''rue'' = str ''true''"
  "102 # str ''alse'' = str ''false''" "78 # str ''aN'' = str ''NaN''"
  "73 # str ''nfinity'' = str ''Infinity''" "45 # str ''Infinity'' = str ''-Infinity''"
  by (simp_all add: str_def)

lemma scan_once_other_consumes:
  assumes n: "c0 \<noteq> 34" "c0 \<noteq> 123" "c0 \<noteq> 91"
    and sc: "scan_once m d (c0 # s0) = Inr (v, r)"
  shows "consumes (scan_once m d) (c0 # s0) v r"
proof -
  note sc' = sc [unfolded scan_once_other_unfold [OF n]]
  consider (null) "c0 = 110 \<and> take 3 s0 = str ''ull''"
    | (true) "\<not> (c0 = 110 \<and> take 3 s0 = str ''ull'')" "c0 = 116 \<and> take 3 s0 = str ''rue''"
    | (false) "\<not> (c0 = 110 \<and> take 3 s0 = str ''ull'')" "\<not> (c0 = 116 \<and> take 3 s0 = str ''rue'')"
        "c0 = 102 \<and> take 4 s0 = str ''alse''"
    | (rest) "\<not> (c0 = 110 \<and> take 3 s0 = str ''ull'')" "\<not> (c0 = 116 \<and> take 3 s0 = str ''rue'')"
        "\<not> (c0 = 102 \<and> take 4 s0 = str ''alse'')"
    by blast
  then show ?thesis
  proof cases
    case null
    with sc' have v: "v = JNull" and r: "r = drop 3 s0" by simp_all
    have s: "c0 # s0 = str ''null'' @ r"
      using literal_split [of 3 s0 "''ull''" c0] null r literal_heads by simp
    show ?thesis unfolding s
      by (rule consumesI [where c = "str ''null''"])
        (simp_all add: v scan_once_literal literal_ends)
  next
    case true
    with sc' have v: "v = JBool True" and r: "r = drop 3 s0" by simp_all
    have s: "c0 # s0 = str ''true'' @ r"
      using literal_split [of 3 s0 "''rue''" c0] true r literal_heads by simp
    show ?thesis unfolding s
      by (rule consumesI [where c = "str ''true''"])
        (simp_all add: v scan_once_literal literal_ends)
  next
    case false
    with sc' have v: "v = JBool False" and r: "r = drop 4 s0" by simp_all
    have s: "c0 # s0 = str ''false'' @ r"
      using literal_split [of 4 s0 "''alse''" c0] false r literal_heads by simp
    show ?thesis unfolding s
      by (rule consumesI [where c = "str ''false''"])
        (simp_all add: v scan_once_literal literal_ends)
  next
    case rest
    with sc' have sc3: "(case match_number (c0 # s0) of
           Some (g, r) \<Rightarrow> (case number_value m g of Inl e \<Rightarrow> Inl e | Inr v \<Rightarrow> Inr (v, r))
         | None \<Rightarrow>
             if c0 = 78 \<and> take 2 s0 = str ''aN'' then Inr (JFloat (str ''NaN''), drop 2 s0)
             else if c0 = 73 \<and> take 7 s0 = str ''nfinity''
               then Inr (JFloat (str ''Infinity''), drop 7 s0)
             else if c0 = 45 \<and> take 8 s0 = str ''Infinity''
               then Inr (JFloat (str ''-Infinity''), drop 8 s0)
             else Inl JSONDecodeError) = Inr (v, r)"
      by simp
    show ?thesis
    proof (cases "match_number (c0 # s0)")
      case (Some res)
      obtain g r0 where res: "res = (g, r0)" by (cases res)
      from sc3 have "(case number_value m g of Inl e \<Rightarrow> Inl e | Inr v \<Rightarrow> Inr (v, r0)) = Inr (v, r)"
        unfolding Some res by simp
      then have nv: "number_value m g = Inr v" and r0: "r0 = r"
        by (auto split: sum.splits)
      have "match_number (c0 # s0) = Some (g, r)"
        unfolding Some res r0 by (rule refl)
      then show ?thesis using nv by (rule scan_once_number_consumes)
    next
      case None
      with sc3 have sc4: "(if c0 = 78 \<and> take 2 s0 = str ''aN'' then Inr (JFloat (str ''NaN''), drop 2 s0)
             else if c0 = 73 \<and> take 7 s0 = str ''nfinity''
               then Inr (JFloat (str ''Infinity''), drop 7 s0)
             else if c0 = 45 \<and> take 8 s0 = str ''Infinity''
               then Inr (JFloat (str ''-Infinity''), drop 8 s0)
             else Inl JSONDecodeError) = Inr (v, r)"
        by simp
      consider (nan) "c0 = 78 \<and> take 2 s0 = str ''aN''"
        | (inf) "\<not> (c0 = 78 \<and> take 2 s0 = str ''aN'')" "c0 = 73 \<and> take 7 s0 = str ''nfinity''"
        | (ninf) "\<not> (c0 = 78 \<and> take 2 s0 = str ''aN'')"
            "\<not> (c0 = 73 \<and> take 7 s0 = str ''nfinity'')" "c0 = 45 \<and> take 8 s0 = str ''Infinity''"
        | (none) "\<not> (c0 = 78 \<and> take 2 s0 = str ''aN'')"
            "\<not> (c0 = 73 \<and> take 7 s0 = str ''nfinity'')"
            "\<not> (c0 = 45 \<and> take 8 s0 = str ''Infinity'')"
        by blast
      then show ?thesis
      proof cases
        case nan
        with sc4 have v: "v = JFloat (str ''NaN'')" and r: "r = drop 2 s0" by simp_all
        have s: "c0 # s0 = str ''NaN'' @ r"
          using literal_split [of 2 s0 "''aN''" c0] nan r literal_heads by simp
        show ?thesis unfolding s
          by (rule consumesI [where c = "str ''NaN''"])
            (simp_all add: v scan_once_literal literal_ends)
      next
        case inf
        with sc4 have v: "v = JFloat (str ''Infinity'')" and r: "r = drop 7 s0" by simp_all
        have s: "c0 # s0 = str ''Infinity'' @ r"
          using literal_split [of 7 s0 "''nfinity''" c0] inf r literal_heads by simp
        show ?thesis unfolding s
          by (rule consumesI [where c = "str ''Infinity''"])
            (simp_all add: v scan_once_literal literal_ends)
      next
        case ninf
        with sc4 have v: "v = JFloat (str ''-Infinity'')" and r: "r = drop 8 s0" by simp_all
        have s: "c0 # s0 = str ''-Infinity'' @ r"
          using literal_split [of 8 s0 "''Infinity''" c0] ninf r literal_heads by simp
        show ?thesis unfolding s
          by (rule consumesI [where c = "str ''-Infinity''"])
            (simp_all add: v scan_once_literal literal_ends)
      next
        case none
        with sc4 show ?thesis by simp
      qed
    qed
  qed
qed

lemma array_loop_step:
  assumes "scan_once m d s = Inr (v1, s1)" and "length s1 \<le> length s" and "skip_ws s1 = ch # s2"
  shows "array_loop m d vals s =
    (if ch = 93 then Inr (JArray (vals @ [v1]), s2)
     else if ch = 44 then array_loop m d (vals @ [v1]) (skip_ws s2)
     else Inl JSONDecodeError)"
  by (subst array_loop.simps) (use assms in simp)

lemma array_loop_cases:
  assumes "array_loop m d vals s = Inr (v, r)"
  obtains v1 s1 ch s2 where "scan_once m d s = Inr (v1, s1)" and "skip_ws s1 = ch # s2"
    and "(ch = 93 \<and> v = JArray (vals @ [v1]) \<and> r = s2) \<or>
         (ch = 44 \<and> array_loop m d (vals @ [v1]) (skip_ws s2) = Inr (v, r))"
  using assms
  by (subst (asm) array_loop.simps) (auto split: option.splits sum.splits list.splits if_splits)

lemma array_loop_consumes_step:
  assumes S: "\<And>v r. scan_once m d s = Inr (v, r) \<Longrightarrow> consumes (scan_once m d) s v r"
    and IHa: "\<And>s' vals v r. length s' < length s \<Longrightarrow> array_loop m d vals s' = Inr (v, r) \<Longrightarrow>
      consumes (array_loop m d vals) s' v r"
    and al: "array_loop m d vals s = Inr (v, r)"
  shows "consumes (array_loop m d vals) s v r"
proof -
  from al obtain v1 s1 ch s2 where sc: "scan_once m d s = Inr (v1, s1)"
    and sk: "skip_ws s1 = ch # s2"
    and alt: "(ch = 93 \<and> v = JArray (vals @ [v1]) \<and> r = s2) \<or>
         (ch = 44 \<and> array_loop m d (vals @ [v1]) (skip_ws s2) = Inr (v, r))"
    by (rule array_loop_cases)
  from S [OF sc, unfolded consumes_def] obtain c1 where c1: "s = c1 @ s1" "c1 \<noteq> []"
    and st1: "\<And>r'. delimited r' \<Longrightarrow> scan_once m d (c1 @ r') = Inr (v1, r')"
    by blast
  obtain w where w: "s1 = w @ skip_ws s1" "list_all is_json_ws w"
    by (rule skip_ws_obtain)
  have s1: "s1 = w @ ch # s2" using w(1) sk by simp
  have chw: "\<not> is_json_ws ch" using skip_ws_hd [OF sk] .
  from alt show ?thesis
  proof
    assume a: "ch = 93 \<and> v = JArray (vals @ [v1]) \<and> r = s2"
    show ?thesis
    proof (rule consumesI [where c = "c1 @ w @ [93]"])
      show "s = (c1 @ w @ [93]) @ r" using c1(1) s1 a by simp
      show "c1 @ w @ [93] \<noteq> []" by simp
      show "\<not> isspace (last (c1 @ w @ [93]))" using good_end by simp
      show "last (c1 @ w @ [93]) \<noteq> 96" by simp
      show "array_loop m d vals ((c1 @ w @ [93]) @ r') = Inr (v, r')" for r'
      proof -
        have d: "delimited (w @ 93 # r')"
          using w(2) not_number_char(1) by (rule delimited_ws)
        have 1: "scan_once m d ((c1 @ w @ [93]) @ r') = Inr (v1, w @ 93 # r')"
          using st1 [OF d] by simp
        have 2: "length (w @ 93 # r') \<le> length ((c1 @ w @ [93]) @ r')" by simp
        have 3: "skip_ws (w @ 93 # r') = 93 # r'"
          using w(2) not_ws(1) by (rule skip_ws_over)
        show ?thesis
          unfolding array_loop_step [OF 1 2 3] using a by simp
      qed
    qed
  next
    assume a: "ch = 44 \<and> array_loop m d (vals @ [v1]) (skip_ws s2) = Inr (v, r)"
    have "length (skip_ws s2) < length s"
      using c1 s1 skip_ws_length [of s2] by (cases c1) auto
    from IHa [OF this conjunct2 [OF a], unfolded consumes_def]
    obtain c2 where c2: "skip_ws s2 = c2 @ r" "c2 \<noteq> []" "\<not> isspace (last c2)" "last c2 \<noteq> 96"
      and st2: "\<And>r'. delimited r' \<Longrightarrow> array_loop m d (vals @ [v1]) (c2 @ r') = Inr (v, r')"
      by blast
    obtain w2 where w2: "s2 = w2 @ skip_ws s2" "list_all is_json_ws w2"
      by (rule skip_ws_obtain)
    obtain x c2' where x: "c2 = x # c2'" using c2(2) by (cases c2) auto
    have xw: "\<not> is_json_ws x"
      using skip_ws_hd [of s2 x "c2' @ r"] c2(1) x by simp
    show ?thesis
    proof (rule consumesI [where c = "c1 @ w @ 44 # w2 @ c2"])
      show "s = (c1 @ w @ 44 # w2 @ c2) @ r"
        using c1(1) s1 a w2(1) c2(1) by simp
      show "c1 @ w @ 44 # w2 @ c2 \<noteq> []" by simp
      show "\<not> isspace (last (c1 @ w @ 44 # w2 @ c2))" using c2(2,3) by simp
      show "last (c1 @ w @ 44 # w2 @ c2) \<noteq> 96" using c2(2,4) by simp
      show "array_loop m d vals ((c1 @ w @ 44 # w2 @ c2) @ r') = Inr (v, r')" if dr: "delimited r'" for r'
      proof -
        let ?rest = "w2 @ c2 @ r'"
        have d: "delimited (w @ 44 # ?rest)"
          using w(2) not_number_char(2) by (rule delimited_ws)
        have 1: "scan_once m d ((c1 @ w @ 44 # w2 @ c2) @ r') = Inr (v1, w @ 44 # ?rest)"
          using st1 [OF d] by simp
        have 2: "length (w @ 44 # ?rest) \<le> length ((c1 @ w @ 44 # w2 @ c2) @ r')" by simp
        have 3: "skip_ws (w @ 44 # ?rest) = 44 # ?rest"
          using w(2) not_ws(2) by (rule skip_ws_over)
        have 4: "skip_ws ?rest = c2 @ r'"
          using skip_ws_over [OF w2(2) xw, of "c2' @ r'"] x by simp
        show ?thesis
          unfolding array_loop_step [OF 1 2 3] 4 using st2 [OF dr] by simp
      qed
    qed
  qed
qed

lemma object_loop_step:
  assumes "scanstring s = Some (key, s1)" and "skip_ws s1 = 58 # s2"
    and "scan_once m d (skip_ws s2) = Inr (v1, s3)" and "length s3 \<le> length (skip_ws s2)"
    and "skip_ws s3 = ch # s4"
  shows "object_loop m d pairs s =
    (if ch = 125 then Inr (JObject (dict (pairs @ [(key, v1)])), s4)
     else if ch = 44 then
       (case skip_ws s4 of
          [] \<Rightarrow> Inl JSONDecodeError
        | q # s5 \<Rightarrow> if q = 34 then object_loop m d (pairs @ [(key, v1)]) s5 else Inl JSONDecodeError)
     else Inl JSONDecodeError)"
  by (subst object_loop.simps) (use assms in simp)

lemma object_loop_cases:
  assumes "object_loop m d pairs s = Inr (v, r)"
  obtains key s1 s2 v1 s3 ch s4 where "scanstring s = Some (key, s1)" and "skip_ws s1 = 58 # s2"
    and "scan_once m d (skip_ws s2) = Inr (v1, s3)" and "skip_ws s3 = ch # s4"
    and "(ch = 125 \<and> v = JObject (dict (pairs @ [(key, v1)])) \<and> r = s4) \<or>
         (ch = 44 \<and> (\<exists>s5. skip_ws s4 = 34 # s5 \<and>
            object_loop m d (pairs @ [(key, v1)]) s5 = Inr (v, r)))"
  using assms
  by (subst (asm) object_loop.simps) (auto split: option.splits sum.splits list.splits if_splits)

lemma object_loop_consumes_step:
  assumes IHs: "\<And>s' v r. length s' < length s \<Longrightarrow> scan_once m d s' = Inr (v, r) \<Longrightarrow>
      consumes (scan_once m d) s' v r"
    and IHo: "\<And>s' pairs v r. length s' < length s \<Longrightarrow> object_loop m d pairs s' = Inr (v, r) \<Longrightarrow>
      consumes (object_loop m d pairs) s' v r"
    and ol: "object_loop m d pairs s = Inr (v, r)"
  shows "consumes (object_loop m d pairs) s v r"
proof -
  from ol obtain key s1 s2 v1 s3 ch s4 where st: "scanstring s = Some (key, s1)"
    and sk1: "skip_ws s1 = 58 # s2"
    and sc: "scan_once m d (skip_ws s2) = Inr (v1, s3)" and sk3: "skip_ws s3 = ch # s4"
    and alt: "(ch = 125 \<and> v = JObject (dict (pairs @ [(key, v1)])) \<and> r = s4) \<or>
         (ch = 44 \<and> (\<exists>s5. skip_ws s4 = 34 # s5 \<and>
            object_loop m d (pairs @ [(key, v1)]) s5 = Inr (v, r)))"
    by (rule object_loop_cases)
  from scanstring_consumes [OF st] obtain ck where ck: "s = ck @ s1" "ck \<noteq> []"
    and stk: "\<And>r'. scanstring (ck @ r') = Some (key, r')" by blast
  obtain w1 where w1: "s1 = w1 @ skip_ws s1" "list_all is_json_ws w1"
    by (rule skip_ws_obtain)
  have s1: "s1 = w1 @ 58 # s2" using w1(1) sk1 by simp
  obtain w2 where w2: "s2 = w2 @ skip_ws s2" "list_all is_json_ws w2"
    by (rule skip_ws_obtain)
  have l2: "length (skip_ws s2) < length s"
    using ck s1 skip_ws_length [of s2] by (cases ck) auto
  from IHs [OF l2 sc, unfolded consumes_def] obtain c1 where c1: "skip_ws s2 = c1 @ s3"
    "c1 \<noteq> []"
    and st1: "\<And>r'. delimited r' \<Longrightarrow> scan_once m d (c1 @ r') = Inr (v1, r')"
    by blast
  obtain x c1' where x: "c1 = x # c1'" using c1(2) by (cases c1) auto
  have xw: "\<not> is_json_ws x"
    using skip_ws_hd [of s2 x "c1' @ s3"] c1(1) x by simp
  obtain w3 where w3: "s3 = w3 @ skip_ws s3" "list_all is_json_ws w3"
    by (rule skip_ws_obtain)
  have s3: "s3 = w3 @ ch # s4" using w3(1) sk3 by simp
  have s: "s = ck @ w1 @ 58 # w2 @ c1 @ w3 @ ch # s4"
    using ck(1) s1 w2(1) c1(1) s3 by simp
  have prefix: "object_loop m d pairs ((ck @ w1 @ 58 # w2 @ c1 @ w3 @ [ch']) @ z) =
      (if ch' = 125 then Inr (JObject (dict (pairs @ [(key, v1)])), z)
       else if ch' = 44 then
         (case skip_ws z of
            [] \<Rightarrow> Inl JSONDecodeError
          | q # s5 \<Rightarrow> if q = 34 then object_loop m d (pairs @ [(key, v1)]) s5 else Inl JSONDecodeError)
       else Inl JSONDecodeError)"
    if ch': "\<not> number_char ch'" "\<not> is_json_ws ch'" for ch' z
  proof -
    let ?t3 = "w3 @ ch' # z"
    let ?t2 = "w2 @ c1 @ ?t3"
    let ?t1 = "w1 @ 58 # ?t2"
    have 1: "scanstring ((ck @ w1 @ 58 # w2 @ c1 @ w3 @ [ch']) @ z) = Some (key, ?t1)"
      using stk [of ?t1] by simp
    have 2: "skip_ws ?t1 = 58 # ?t2"
      using w1(2) not_ws(4) by (rule skip_ws_over)
    have k: "skip_ws ?t2 = c1 @ ?t3"
      using skip_ws_over [OF w2(2) xw, of "c1' @ ?t3"] x by simp
    have dl: "delimited ?t3"
      using w3(2) ch'(1) by (rule delimited_ws)
    have 3: "scan_once m d (skip_ws ?t2) = Inr (v1, ?t3)"
      unfolding k using dl by (rule st1)
    have 4: "length ?t3 \<le> length (skip_ws ?t2)"
      unfolding k by simp
    have 5: "skip_ws ?t3 = ch' # z"
      using w3(2) ch'(2) by (rule skip_ws_over)
    show ?thesis
      by (rule object_loop_step [OF 1 2 3 4 5])
  qed
  from alt show ?thesis
  proof
    assume a: "ch = 125 \<and> v = JObject (dict (pairs @ [(key, v1)])) \<and> r = s4"
    show ?thesis
    proof (rule consumesI [where c = "ck @ w1 @ 58 # w2 @ c1 @ w3 @ [125]"])
      show "s = (ck @ w1 @ 58 # w2 @ c1 @ w3 @ [125]) @ r" using s a by simp
      show "ck @ w1 @ 58 # w2 @ c1 @ w3 @ [125] \<noteq> []" by simp
      show "\<not> isspace (last (ck @ w1 @ 58 # w2 @ c1 @ w3 @ [125]))" using good_end by simp
      show "last (ck @ w1 @ 58 # w2 @ c1 @ w3 @ [125]) \<noteq> 96" by simp
      show "object_loop m d pairs ((ck @ w1 @ 58 # w2 @ c1 @ w3 @ [125]) @ r') = Inr (v, r')" for r'
        unfolding prefix [OF not_number_char(3) not_ws(3)] using a by simp
    qed
  next
    assume a: "ch = 44 \<and> (\<exists>s5. skip_ws s4 = 34 # s5 \<and>
            object_loop m d (pairs @ [(key, v1)]) s5 = Inr (v, r))"
    then obtain s5 where sk4: "skip_ws s4 = 34 # s5"
      and ol5: "object_loop m d (pairs @ [(key, v1)]) s5 = Inr (v, r)" by blast
    obtain w4 where w4: "s4 = w4 @ skip_ws s4" "list_all is_json_ws w4"
      by (rule skip_ws_obtain)
    have s4: "s4 = w4 @ 34 # s5" using w4(1) sk4 by simp
    have "length s5 < length s" using s s4 by simp
    from IHo [OF this ol5, unfolded consumes_def]
    obtain c5 where c5: "s5 = c5 @ r" "c5 \<noteq> []" "\<not> isspace (last c5)" "last c5 \<noteq> 96"
      and st5: "\<And>r'. delimited r' \<Longrightarrow> object_loop m d (pairs @ [(key, v1)]) (c5 @ r') = Inr (v, r')"
      by blast
    let ?c = "(ck @ w1 @ 58 # w2 @ c1 @ w3 @ [44]) @ w4 @ 34 # c5"
    show ?thesis
    proof (rule consumesI [where c = ?c])
      show "s = ?c @ r" using s a s4 c5(1) by simp
      show "?c \<noteq> []" by simp
      show "\<not> isspace (last ?c)" using c5(2,3) by simp
      show "last ?c \<noteq> 96" using c5(2,4) by simp
      show "object_loop m d pairs (?c @ r') = Inr (v, r')" if dr: "delimited r'" for r'
      proof -
        have e: "?c @ r' = (ck @ w1 @ 58 # w2 @ c1 @ w3 @ [44]) @ (w4 @ 34 # c5 @ r')"
          by simp
        have 6: "skip_ws (w4 @ 34 # c5 @ r') = 34 # c5 @ r'"
          using w4(2) not_ws(5) by (rule skip_ws_over)
        show ?thesis
          unfolding e prefix [OF not_number_char(2) not_ws(2)] 6 using st5 [OF dr] by simp
      qed
    qed
  qed
qed

lemma parser_consumes:
  "(\<forall>v r. scan_once m d s = Inr (v, r) \<longrightarrow> consumes (scan_once m d) s v r) \<and>
   (\<forall>vals v r. array_loop m d vals s = Inr (v, r) \<longrightarrow> consumes (array_loop m d vals) s v r) \<and>
   (\<forall>pairs v r. object_loop m d pairs s = Inr (v, r) \<longrightarrow>
      consumes (object_loop m d pairs) s v r)"
proof (induction "length s" arbitrary: s m d rule: less_induct)
  case less
  have IHs: "consumes (scan_once m' d') s' v r"
    if "length s' < length s" "scan_once m' d' s' = Inr (v, r)" for s' m' d' v r
    using less [OF that(1)] that(2) by blast
  have IHa: "consumes (array_loop m' d' vals) s' v r"
    if "length s' < length s" "array_loop m' d' vals s' = Inr (v, r)" for s' m' d' vals v r
    using less [OF that(1)] that(2) by blast
  have IHo: "consumes (object_loop m' d' pairs) s' v r"
    if "length s' < length s" "object_loop m' d' pairs s' = Inr (v, r)" for s' m' d' pairs v r
    using less [OF that(1)] that(2) by blast
  have S: "consumes (scan_once m d) s v r" if sc: "scan_once m d s = Inr (v, r)" for v r
  proof (cases s)
    case Nil
    with sc show ?thesis by simp
  next
    case (Cons c0 s0)
    consider (str) "c0 = 34" | (obj) "c0 = 123" | (arr) "c0 = 91"
      | (other) "c0 \<noteq> 34" "c0 \<noteq> 123" "c0 \<noteq> 91"
      by blast
    then show ?thesis
    proof cases
      case str
      show ?thesis
        unfolding Cons str
        by (rule scan_once_string_consumes) (use sc Cons str in simp)
    next
      case obj
      show ?thesis
        unfolding Cons obj
      proof (rule scan_once_object_consumes)
        show "consumes (object_loop m (d - 1) []) s' v r"
          if "length s' < length (123 # s0)" "object_loop m (d - 1) [] s' = Inr (v, r)" for s' v r
          using IHo [of s' m "d - 1" "[]" v r] that Cons by simp
        show "scan_once m d (123 # s0) = Inr (v, r)" using sc Cons obj by simp
      qed
    next
      case arr
      show ?thesis
        unfolding Cons arr
      proof (rule scan_once_array_consumes)
        show "consumes (array_loop m (d - 1) []) s' v r"
          if "length s' < length (91 # s0)" "array_loop m (d - 1) [] s' = Inr (v, r)" for s' v r
          using IHa [of s' m "d - 1" "[]" v r] that Cons by simp
        show "scan_once m d (91 # s0) = Inr (v, r)" using sc Cons arr by simp
      qed
    next
      case other
      show ?thesis
        unfolding Cons
        by (rule scan_once_other_consumes [OF other]) (use sc Cons in simp)
    qed
  qed
  have A: "consumes (array_loop m d vals) s v r" if al: "array_loop m d vals s = Inr (v, r)"
    for vals v r
  proof (rule array_loop_consumes_step)
    show "consumes (scan_once m d) s v r" if "scan_once m d s = Inr (v, r)" for v r
      using that by (rule S)
    show "consumes (array_loop m d vals) s' v r"
      if "length s' < length s" "array_loop m d vals s' = Inr (v, r)" for s' vals v r
      using that by (rule IHa)
    show "array_loop m d vals s = Inr (v, r)" by (rule al)
  qed
  have O: "consumes (object_loop m d pairs) s v r" if ol: "object_loop m d pairs s = Inr (v, r)"
    for pairs v r
  proof (rule object_loop_consumes_step)
    show "consumes (scan_once m d) s' v r"
      if "length s' < length s" "scan_once m d s' = Inr (v, r)" for s' v r
      using that by (rule IHs)
    show "consumes (object_loop m d pairs) s' v r"
      if "length s' < length s" "object_loop m d pairs s' = Inr (v, r)" for s' pairs v r
      using that by (rule IHo)
    show "object_loop m d pairs s = Inr (v, r)" by (rule ol)
  qed
  from S A O show ?case by blast
qed

lemma scan_once_consumes: "scan_once m d s = Inr (v, r) \<Longrightarrow> consumes (scan_once m d) s v r"
  using parser_consumes [of m d s] by blast

lemma scan_once_length: "scan_once m d s = Inr (v, r) \<Longrightarrow> length r < length s"
  using scan_once_consumes [of m d s v r] unfolding consumes_def by auto

lemma scan_once_hd:
  assumes "scan_once m d (c # s) = Inr res"
  shows "c = 34 \<or> c = 123 \<or> c = 91 \<or> c = 110 \<or> c = 116 \<or> c = 102 \<or> c = 78 \<or> c = 73 \<or>
    c = 45 \<or> is_digit c"
proof (rule ccontr)
  assume n: "\<not> ?thesis"
  then have o: "c \<noteq> 34" "c \<noteq> 123" "c \<noteq> 91" by auto
  have "match_number (c # s) = None"
    using match_number_hd [of c s] n by (cases "match_number (c # s)") auto
  with assms n show False
    unfolding scan_once_other_unfold [OF o] by simp
qed

lemma value_start:
  assumes "scan_once m d (c # s) = Inr res"
  shows "\<not> isspace c" and "c \<noteq> 96" and "c \<noteq> 0xFEFF" and "\<not> is_json_ws c"
  using scan_once_hd [OF assms]
  by (auto simp: isspace_def is_digit_def is_json_ws_def)

lemma json_ws_isspace: "list_all is_json_ws w \<Longrightarrow> list_all isspace w"
  by (induction w) (auto simp: is_json_ws_def isspace_def)

subsection \<open>Cleaning a text that decodes\<close>

lemma endswith_last: "endswith s (str ''```'') \<Longrightarrow> s \<noteq> [] \<and> last s = 96"
proof -
  assume "endswith s (str ''```'')"
  then have "length (str ''```'') \<le> length s"
    and "drop (length s - length (str ''```'')) s = str ''```''"
    by (simp_all add: endswith_def)
  moreover have "length (str ''```'') = 3" and "str ''```'' = [96, 96, 96]"
    by (simp_all add: str_def)
  ultimately have l: "3 \<le> length s" and d: "drop (length s - 3) s = [96, 96, 96]"
    by (simp_all only:)
  from l have ne: "s \<noteq> []" by auto
  have "last s = last (drop (length s - 3) s)"
    using l by (simp add: last_drop)
  with d ne show ?thesis by simp
qed

lemma clean_text_value:
  assumes "c \<noteq> []" and "\<not> isspace (hd c)" and "hd c \<noteq> 96" and "\<not> isspace (last c)"
    and "last c \<noteq> 96" and "list_all isspace w0" and "list_all isspace r"
  shows "clean_text (w0 @ c @ r) = c"
proof -
  have "strip (w0 @ c @ r) = strip (c @ r)"
    using assms(6) by (rule strip_append_ws_left)
  also have "\<dots> = strip c"
    using assms(7) by (rule strip_append_ws_right)
  also have "\<dots> = c"
    by (rule strip_id) (use assms in simp)
  finally have s: "strip (w0 @ c @ r) = c" .
  have p: "\<not> startswith c (str ''```json'')"
    using assms(1,3) by (cases c) (auto simp: str_def startswith_eval)
  have q: "\<not> endswith c (str ''```'')"
    using endswith_last [of c] assms(5) by blast
  have "clean_text (w0 @ c @ r) = strip (w0 @ c @ r)"
  proof (rule clean_text_unfenced)
    show "\<not> startswith (strip (w0 @ c @ r)) (str ''```json'')"
      unfolding s by (rule p)
    show "\<not> endswith (strip (w0 @ c @ r)) (str ''```'')"
      unfolding s by (rule q)
  qed
  with s show ?thesis by simp
qed

lemma json_loads_clean_text:
  assumes "json_loads lim t = Inr v"
  shows "json_loads lim (clean_text t) = Inr v"
proof -
  let ?m = "max_str_digits lim"
  let ?d = "max_depth lim"
  from assms obtain r where sc: "scan_once ?m ?d (skip_ws t) = Inr (v, r)" and sr: "skip_ws r = []"
    by (auto simp: json_loads_def split: if_splits sum.splits)
  obtain w0 where w0: "t = w0 @ skip_ws t" "list_all is_json_ws w0"
    by (rule skip_ws_obtain)
  from scan_once_consumes [OF sc, unfolded consumes_def]
  obtain c where c: "skip_ws t = c @ r" "c \<noteq> []" "\<not> isspace (last c)" "last c \<noteq> 96"
    and st: "\<And>r'. delimited r' \<Longrightarrow> scan_once ?m ?d (c @ r') = Inr (v, r')"
    by blast
  obtain x c' where x: "c = x # c'" using c(2) by (cases c) auto
  have "scan_once ?m ?d (x # c' @ r) = Inr (v, r)" using sc c(1) x by simp
  note hd = value_start [OF this]
  have rw: "list_all is_json_ws r"
    using sr by (simp add: skip_ws_def list_all_iff)
  have t: "t = w0 @ c @ r" using w0(1) c(1) by simp
  have cl: "clean_text t = c"
    unfolding t
    by (rule clean_text_value)
      (use c x hd json_ws_isspace [OF w0(2)] json_ws_isspace [OF rw] in simp_all)
  have "delimited []" by (simp add: delimited_def)
  from st [OF this] have sc': "scan_once ?m ?d c = Inr (v, [])" by simp
  have "skip_ws c = c" using x hd(4) by (simp add: skip_ws_Cons)
  moreover have "\<not> startswith c [0xFEFF]" using x hd(3) by (simp add: startswith_eval)
  ultimately show ?thesis
    unfolding cl json_loads_def using sc' by (simp add: skip_ws_def)
qed

section \<open>The outcome of one request\<close>

lemma generate_model_raises:
  "model (request_text language nl_input) w = (Inl e, w1) \<Longrightarrow>
     generate_siem_data lim model nl_input language w = (Inl e, w1)"
  by (simp add: generate_siem_data_def)

lemma generate_text_raises:
  "model (request_text language nl_input) w = (Inr resp, w1) \<Longrightarrow> text resp = Inl e \<Longrightarrow>
     generate_siem_data lim model nl_input language w =
       (if e = JSONDecodeError then Inr fallback else Inl e, w1)"
  by (simp add: generate_siem_data_def)

lemma generate_text:
  "model (request_text language nl_input) w = (Inr resp, w1) \<Longrightarrow> text resp = Inr t \<Longrightarrow>
     generate_siem_data lim model nl_input language w =
       (case json_loads lim (clean_text t) of
          Inl e \<Rightarrow> if e = JSONDecodeError then Inr fallback else Inl e
        | Inr v \<Rightarrow> Inr v, w1)"
  by (simp add: generate_siem_data_def split: sum.splits)

lemma generate_decoded:
  assumes "model (request_text language nl_input) w = (Inr resp, w1)"
    and "text resp = Inr t"
    and "json_loads lim t = Inr v"
  shows "generate_siem_data lim model nl_input language w = (Inr v, w1)"
  using generate_text [of model language nl_input w resp w1 t lim] assms(1,2)
    json_loads_clean_text [OF assms(3)]
  by simp

subsection \<open>Texts that reach a limit of the interpreter\<close>

text \<open>
  A text that opens more arrays than may be open at once is not decoded: the decoder
  raises \<^verbatim>\<open>RecursionError\<close> before it reaches the end of the text.
\<close>

lemma scan_once_deep_nesting:
  "d < n \<Longrightarrow> scan_once m d (replicate n 91 @ s) = Inl RecursionError"
proof (induction d arbitrary: n)
  case 0
  then obtain k where "n = Suc k" by (cases n) auto
  then show ?case by (simp add: scan_once.simps(2))
next
  case (Suc d)
  then obtain k where n: "n = Suc k" and k: "d < k" by (cases n) auto
  then obtain j where j: "k = Suc j" by (cases k) auto
  have "array_loop m d [] (replicate k 91 @ s) = Inl RecursionError"
    by (subst array_loop.simps) (simp add: Suc.IH [OF k])
  then have a: "array_loop m d [] (91 # replicate j 91 @ s) = Inl RecursionError"
    by (simp add: j)
  have "scan_once m (Suc d) (91 # 91 # replicate j 91 @ s) = Inl RecursionError"
    by (simp add: scan_once.simps(2) Let_def skip_ws_def is_json_ws_def a)
  then show ?case by (simp add: n j)
qed

lemma json_loads_deep_nesting:
  assumes "max_depth lim < n"
  shows "json_loads lim (replicate n 91) = Inl RecursionError"
proof -
  from assms obtain k where n: "n = Suc k" by (cases n) auto
  have "skip_ws (replicate n 91) = replicate n 91"
    unfolding n by (simp add: skip_ws_def is_json_ws_def)
  moreover have "\<not> startswith (replicate n 91) [0xFEFF]"
    unfolding n by (simp add: startswith_eval)
  moreover have "scan_once (max_str_digits lim) (max_depth lim) (replicate n 91) =
      Inl RecursionError"
    using scan_once_deep_nesting [OF assms, of "max_str_digits lim" "[]"] by simp
  ultimately show ?thesis by (simp add: json_loads_def)
qed

text \<open>
  An integer literal with more digits than \<^verbatim>\<open>int\<close> accepts is not decoded either: the
  decoder raises \<^verbatim>\<open>ValueError\<close>.
\<close>

lemma match_number_digits:
  assumes "list_all is_digit ds" and "ds \<noteq> []" and "hd ds \<noteq> 48"
  shows "match_number ds = Some ((ds, [], []), [])"
proof -
  from assms(2) obtain c r where ds: "ds = c # r" by (cases ds) auto
  with assms have c: "is_digit c" "c \<noteq> 48" and r: "list_all is_digit r" by simp_all
  from c(1) have c45: "c \<noteq> 45" by (auto simp: is_digit_def)
  have tw: "takeWhile is_digit r = r" "dropWhile is_digit r = []"
    using r by (simp_all add: list_all_iff)
  show ?thesis
    unfolding ds using c c45
    by (simp add: match_number_def int_part_def frac_part_def exp_part_def tw)
qed

lemma json_loads_long_integer:
  assumes "list_all is_digit ds" and "ds \<noteq> []" and "hd ds \<noteq> 48"
    and "too_many_digits (max_str_digits lim) ds"
  shows "json_loads lim ds =
    Inl (ValueError (str ''Exceeds the limit for integer string conversion''))"
proof -
  from assms(2) obtain c r where ds: "ds = c # r" by (cases ds) auto
  with assms(1) have c: "is_digit c" by simp
  then have c45: "c \<noteq> 45" and ws: "\<not> is_json_ws c" and bom: "c \<noteq> 0xFEFF"
    by (auto simp: is_digit_def is_json_ws_def)
  have mn: "match_number (c # r) = Some ((ds, [], []), [])"
    using match_number_digits [OF assms(1-3)] by (simp add: ds)
  have pi: "parse_int (max_str_digits lim) ds =
      Inl (ValueError (str ''Exceeds the limit for integer string conversion''))"
    using assms(4) c45 by (simp add: parse_int_def ds)
  have "scan_once (max_str_digits lim) (max_depth lim) (c # r) =
      Inl (ValueError (str ''Exceeds the limit for integer string conversion''))"
    unfolding scan_once_number [OF mn] by (simp add: pi)
  moreover have "skip_ws (c # r) = c # r" using ws by (rule skip_ws_Cons)
  moreover have "\<not> startswith (c # r) [0xFEFF]" using bom by (simp add: startswith_eval)
  ultimately show ?thesis by (simp add: json_loads_def ds)
qed

lemma clean_text_bare:
  assumes "c \<noteq> []" and "\<not> isspace (hd c)" and "hd c \<noteq> 96" and "\<not> isspace (last c)"
    and "last c \<noteq> 96"
  shows "clean_text c = c"
  using clean_text_value [OF assms, of "[]" "[]"] by simp

lemma clean_text_brackets: "0 < n \<Longrightarrow> clean_text (replicate n 91) = replicate n 91"
  by (rule clean_text_bare) (simp_all add: isspace_def)

lemma clean_text_ones: "0 < n \<Longrightarrow> clean_text (replicate n 49) = replicate n 49"
  by (rule clean_text_bare) (simp_all add: isspace_def)

lemma deep_nesting_outcome:
  assumes "max_depth lim < n"
  shows "generate_siem_data lim (\<lambda>p w. (Inr \<lparr>text = Inr (replicate n 91)\<rparr>, w)) nl_input language w =
    (Inl RecursionError, w)"
proof -
  from assms have n: "0 < n" by simp
  have "json_loads lim (clean_text (replicate n 91)) = Inl RecursionError"
    unfolding clean_text_brackets [OF n] using assms by (rule json_loads_deep_nesting)
  then show ?thesis
    by (simp add: generate_siem_data_def)
qed

lemma long_integer_outcome:
  assumes "too_many_digits (max_str_digits lim) (replicate n 49)"
  shows "generate_siem_data lim (\<lambda>p w. (Inr \<lparr>text = Inr (replicate n 49)\<rparr>, w)) nl_input language w =
    (Inl (ValueError (str ''Exceeds the limit for integer string conversion'')), w)"
proof -
  from assms have n: "0 < n" by (simp add: too_many_digits_def)
  have d: "list_all is_digit (replicate n 49)"
    by (simp add: list_all_iff is_digit_def)
  have ne: "replicate n 49 \<noteq> []" using n by simp
  have h: "hd (replicate n 49) \<noteq> (48::nat)" using n by (simp add: hd_replicate)
  have "json_loads lim (clean_text (replicate n 49)) =
      Inl (ValueError (str ''Exceeds the limit for integer string conversion''))"
    unfolding clean_text_ones [OF n] using d ne h assms by (rule json_loads_long_integer)
  then show ?thesis
    by (simp add: generate_siem_data_def)
qed

section \<open>Properties of the prompt and of model selection\<close>

text \<open>
  C5: for each of the four languages of the selector and every request, the text
  submitted to the model is the prompt followed by the request, and it contains the
  three guardrail clauses (the last 24 hours, the exclusion of accounts starting with
  \<^verbatim>\<open>svc_\<close>, the limit of 100 results) and the label of the language.
\<close>

theorem prompt_contains_guardrails:
  assumes "language \<in> set siem_languages"
  shows \<open>prompts_sent lim model nl_input language w = [request_text language nl_input] \<and>
    contains (request_text language nl_input)
      (str ''1. Time scoping: Restrict the search to the last 24 hours.'') \<and>
    contains (request_text language nl_input)
      (str ''2. Exclude service accounts: Filter out users/accounts starting with "svc_".'') \<and>
    contains (request_text language nl_input)
      (str ''3. Performance limit: Limit the output to 100 results'') \<and>
    contains (request_text language nl_input) language\<close>
proof (intro conjI)
  show "prompts_sent lim model nl_input language w = [request_text language nl_input]"
    by (rule prompts_sent_eq)
  show "contains (request_text language nl_input)
      (str ''1. Time scoping: Restrict the search to the last 24 hours.'')"
    by (rule request_text_tail [OF tail_time])
  show \<open>contains (request_text language nl_input)
      (str ''2. Exclude service accounts: Filter out users/accounts starting with "svc_".'')\<close>
    by (rule request_text_tail [OF tail_svc])
  show "contains (request_text language nl_input)
      (str ''3. Performance limit: Limit the output to 100 results'')"
    by (rule request_text_tail [OF tail_limit])
  show "contains (request_text language nl_input) language"
    by (rule request_text_language)
qed

theorem prompt_contains_guardrails_witness:
  \<open>str ''Sigma'' \<in> set siem_languages \<and>
   prompts_sent default_limits (\<lambda>p w. (Inl (OtherException (str ''quota'')), w))
     (str ''failed logins'') (str ''Sigma'') () =
     [request_text (str ''Sigma'') (str ''failed logins'')] \<and>
   contains (request_text (str ''Sigma'') (str ''failed logins''))
     (str ''1. Time scoping: Restrict the search to the last 24 hours.'') \<and>
   contains (request_text (str ''Sigma'') (str ''failed logins''))
     (str ''2. Exclude service accounts: Filter out users/accounts starting with "svc_".'') \<and>
   contains (request_text (str ''Sigma'') (str ''failed logins''))
     (str ''3. Performance limit: Limit the output to 100 results'') \<and>
   contains (request_text (str ''Sigma'') (str ''failed logins'')) (str ''Sigma'')\<close>
proof -
  have h: "str ''Sigma'' \<in> set siem_languages"
    by (simp add: siem_languages_def)
  show ?thesis
    by (rule conjI [OF h prompt_contains_guardrails [OF h]])
qed

text \<open>
  C6: the text submitted to the model is determined by the request and the language:
  two runs with the same request and language submit the same text, whatever the
  model, the state of the world and the limits of the interpreter are in each.
\<close>

theorem prompt_deterministic:
  "prompts_sent lim1 model1 nl_input language w1 = prompts_sent lim2 model2 nl_input language w2 \<and>
   prompts_sent lim1 model1 nl_input language w1 = [request_text language nl_input]"
  by (simp add: prompts_sent_eq)

text \<open>
  C7: the models are listed if and only if binding the preferred model was attempted
  and raised; when the preferred model is bound, its handle is returned and the
  models are not listed; and when the models are listed, the model bound is the first
  of the listing that declares \<^verbatim>\<open>generateContent\<close>, whatever comes before it and after
  it in the listing, and the run is the outcome of binding it.
\<close>

theorem fallback_iff_preferred_bind_raises:
  "((ListModels \<in> set (calls_made g api_key w)) =
      (\<exists>u w1 e. configure g api_key w = (Inr u, w1) \<and>
         fst (GenerativeModel g preferred_model w1) = Inl e)) \<and>
   (\<forall>u w1 h w2. configure g api_key w = (Inr u, w1) \<and>
        GenerativeModel g preferred_model w1 = (Inr h, w2) \<longrightarrow>
        initialize_ai g api_key w = (Inr h, w2) \<and>
        calls_made g api_key w = [Configure api_key, Bind preferred_model]) \<and>
   (\<forall>u w1 e w2 skipped m ms others w3.
        configure g api_key w = (Inr u, w1) \<and>
        GenerativeModel g preferred_model w1 = (Inl e, w2) \<and>
        list_models g w2 = (Inr (skipped @ m # others), w3) \<and>
        (\<forall>x \<in> set skipped. \<forall>xs. supported_generation_methods x = Some xs \<longrightarrow>
           str ''generateContent'' \<notin> set xs) \<and>
        supported_generation_methods m = Some ms \<and> str ''generateContent'' \<in> set ms \<longrightarrow>
        initialize_ai g api_key w = GenerativeModel g (name m) w3 \<and>
        calls_made g api_key w =
          [Configure api_key, Bind preferred_model, ListModels, Bind (name m)])"
proof (intro conjI allI impI)
  show "(ListModels \<in> set (calls_made g api_key w)) =
      (\<exists>u w1 e. configure g api_key w = (Inr u, w1) \<and>
         fst (GenerativeModel g preferred_model w1) = Inl e)"
    by (rule fallback_iff)
next
  fix u w1 h w2
  assume "configure g api_key w = (Inr u, w1) \<and>
        GenerativeModel g preferred_model w1 = (Inr h, w2)"
  then show "initialize_ai g api_key w = (Inr h, w2)"
    by (simp add: preferred_bind_returned)
next
  fix u w1 h w2
  assume "configure g api_key w = (Inr u, w1) \<and>
        GenerativeModel g preferred_model w1 = (Inr h, w2)"
  then show "calls_made g api_key w = [Configure api_key, Bind preferred_model]"
    using calls_made_preferred [of g api_key w u w1 h w2] by simp
next
  fix u w1 e w2 skipped m ms others w3
  assume a: "configure g api_key w = (Inr u, w1) \<and>
        GenerativeModel g preferred_model w1 = (Inl e, w2) \<and>
        list_models g w2 = (Inr (skipped @ m # others), w3) \<and>
        (\<forall>x \<in> set skipped. \<forall>xs. supported_generation_methods x = Some xs \<longrightarrow>
           str ''generateContent'' \<notin> set xs) \<and>
        supported_generation_methods m = Some ms \<and> str ''generateContent'' \<in> set ms"
  have av: "available_models (skipped @ m # others) = name m # available_models others"
  proof (rule available_models_first)
    show "\<forall>x \<in> set skipped. \<forall>xs. supported_generation_methods x = Some xs \<longrightarrow>
           str ''generateContent'' \<notin> set xs"
      using a by blast
    show "supported_generation_methods m = Some ms" using a by blast
    show "str ''generateContent'' \<in> set ms" using a by blast
  qed
  from a have c: "configure g api_key w = (Inr u, w1)"
    and b: "GenerativeModel g preferred_model w1 = (Inl e, w2)"
    and l: "list_models g w2 = (Inr (skipped @ m # others), w3)"
    by simp_all
  show "initialize_ai g api_key w = GenerativeModel g (name m) w3"
    using c b l av by (rule fallback_binds_first(1))
next
  fix u w1 e w2 skipped m ms others w3
  assume a: "configure g api_key w = (Inr u, w1) \<and>
        GenerativeModel g preferred_model w1 = (Inl e, w2) \<and>
        list_models g w2 = (Inr (skipped @ m # others), w3) \<and>
        (\<forall>x \<in> set skipped. \<forall>xs. supported_generation_methods x = Some xs \<longrightarrow>
           str ''generateContent'' \<notin> set xs) \<and>
        supported_generation_methods m = Some ms \<and> str ''generateContent'' \<in> set ms"
  have av: "available_models (skipped @ m # others) = name m # available_models others"
  proof (rule available_models_first)
    show "\<forall>x \<in> set skipped. \<forall>xs. supported_generation_methods x = Some xs \<longrightarrow>
           str ''generateContent'' \<notin> set xs"
      using a by blast
    show "supported_generation_methods m = Some ms" using a by blast
    show "str ''generateContent'' \<in> set ms" using a by blast
  qed
  from a have c: "configure g api_key w = (Inr u, w1)"
    and b: "GenerativeModel g preferred_model w1 = (Inl e, w2)"
    and l: "list_models g w2 = (Inr (skipped @ m # others), w3)"
    by simp_all
  show "calls_made g api_key w =
      [Configure api_key, Bind preferred_model, ListModels, Bind (name m)]"
    using c b l av by (rule fallback_binds_first(2))
qed

theorem fallback_iff_preferred_bind_raises_witness:
  "initialize_ai
     \<lparr>configure = (\<lambda>k w. (Inr (), w)), GenerativeModel = (\<lambda>n w. (Inr n, w)),
      list_models = (\<lambda>w. (Inr [], w))\<rparr> (str ''key'') (0::nat) = (Inr preferred_model, 0) \<and>
   calls_made
     \<lparr>configure = (\<lambda>k w. (Inr (), w)), GenerativeModel = (\<lambda>n w. (Inr n, w)),
      list_models = (\<lambda>w. (Inr [], w))\<rparr> (str ''key'') (0::nat) =
     [Configure (str ''key''), Bind preferred_model] \<and>
   ListModels \<in> set (calls_made
     \<lparr>configure = (\<lambda>k w. (Inr (), w)),
      GenerativeModel = (\<lambda>n w.
        (if n = preferred_model then Inl (OtherException (str ''not found'')) else Inr n, w)),
      list_models = (\<lambda>w. (Inr
        [\<lparr>name = str ''models/embedding-001'',
           supported_generation_methods = Some [str ''embedContent'']\<rparr>,
         \<lparr>name = str ''models/aqa'', supported_generation_methods = None\<rparr>,
         \<lparr>name = str ''models/gemini-pro'',
           supported_generation_methods = Some [str ''countTokens'', str ''generateContent'']\<rparr>,
         \<lparr>name = str ''models/gemini-1.0-pro'',
           supported_generation_methods = Some [str ''generateContent'']\<rparr>], w))\<rparr>
     (str ''key'') (0::nat)) \<and>
   initialize_ai
     \<lparr>configure = (\<lambda>k w. (Inr (), w)),
      GenerativeModel = (\<lambda>n w.
        (if n = preferred_model then Inl (OtherException (str ''not found'')) else Inr n, w)),
      list_models = (\<lambda>w. (Inr
        [\<lparr>name = str ''models/embedding-001'',
           supported_generation_methods = Some [str ''embedContent'']\<rparr>,
         \<lparr>name = str ''models/aqa'', supported_generation_methods = None\<rparr>,
         \<lparr>name = str ''models/gemini-pro'',
           supported_generation_methods = Some [str ''countTokens'', str ''generateContent'']\<rparr>,
         \<lparr>name = str ''models/gemini-1.0-pro'',
           supported_generation_methods = Some [str ''generateContent'']\<rparr>], w))\<rparr>
     (str ''key'') (0::nat) = (Inr (str ''models/gemini-pro''), 0) \<and>
   calls_made
     \<lparr>configure = (\<lambda>k w. (Inr (), w)),
      GenerativeModel = (\<lambda>n w.
        (if n = preferred_model then Inl (OtherException (str ''not found'')) else Inr n, w)),
      list_models = (\<lambda>w. (Inr
        [\<lparr>name = str ''models/embedding-001'',
           supported_generation_methods = Some [str ''embedContent'']\<rparr>,
         \<lparr>name = str ''models/aqa'', supported_generation_methods = None\<rparr>,
         \<lparr>name = str ''models/gemini-pro'',
           supported_generation_methods = Some [str ''countTokens'', str ''generateContent'']\<rparr>,
         \<lparr>name = str ''models/gemini-1.0-pro'',
           supported_generation_methods = Some [str ''generateContent'']\<rparr>], w))\<rparr>
     (str ''key'') (0::nat) =
     [Configure (str ''key''), Bind preferred_model, ListModels, Bind (str ''models/gemini-pro'')]"
proof -
  let ?g = "\<lparr>configure = (\<lambda>k w. (Inr (), w)), GenerativeModel = (\<lambda>n w. (Inr n, w)),
            list_models = (\<lambda>w. (Inr [], w))\<rparr> :: (nat, pystr) genai"
  let ?skipped = "[\<lparr>name = str ''models/embedding-001'',
           supported_generation_methods = Some [str ''embedContent'']\<rparr>,
         \<lparr>name = str ''models/aqa'', supported_generation_methods = None\<rparr>]"
  let ?m = "\<lparr>name = str ''models/gemini-pro'',
           supported_generation_methods = Some [str ''countTokens'', str ''generateContent'']\<rparr>"
  let ?others = "[\<lparr>name = str ''models/gemini-1.0-pro'',
           supported_generation_methods = Some [str ''generateContent'']\<rparr>]"
  let ?f = "\<lparr>configure = (\<lambda>k w. (Inr (), w)),
      GenerativeModel = (\<lambda>n w.
        (if n = preferred_model then Inl (OtherException (str ''not found'')) else Inr n, w)),
      list_models = (\<lambda>w. (Inr
        [\<lparr>name = str ''models/embedding-001'',
           supported_generation_methods = Some [str ''embedContent'']\<rparr>,
         \<lparr>name = str ''models/aqa'', supported_generation_methods = None\<rparr>,
         \<lparr>name = str ''models/gemini-pro'',
           supported_generation_methods = Some [str ''countTokens'', str ''generateContent'']\<rparr>,
         \<lparr>name = str ''models/gemini-1.0-pro'',
           supported_generation_methods = Some [str ''generateContent'']\<rparr>], w))\<rparr>
      :: (nat, pystr) genai"
  have c: "configure ?g (str ''key'') 0 = (Inr (), 0) \<and>
      GenerativeModel ?g preferred_model 0 = (Inr preferred_model, 0)"
    by simp
  from fallback_iff_preferred_bind_raises [of ?g "str ''key''" 0]
  have "\<forall>u w1 h w2. configure ?g (str ''key'') 0 = (Inr u, w1) \<and>
        GenerativeModel ?g preferred_model w1 = (Inr h, w2) \<longrightarrow>
        initialize_ai ?g (str ''key'') 0 = (Inr h, w2) \<and>
        calls_made ?g (str ''key'') 0 = [Configure (str ''key''), Bind preferred_model]"
    by (rule conjunct1 [OF conjunct2])
  with c have 1: "initialize_ai ?g (str ''key'') 0 = (Inr preferred_model, 0) \<and>
        calls_made ?g (str ''key'') 0 = [Configure (str ''key''), Bind preferred_model]"
    by blast
  note f = fallback_iff_preferred_bind_raises [of ?f "str ''key''" 0]
  have d: "\<exists>u w1 e. configure ?f (str ''key'') 0 = (Inr u, w1) \<and>
         fst (GenerativeModel ?f preferred_model w1) = Inl e"
    by simp
  from f have "(ListModels \<in> set (calls_made ?f (str ''key'') 0)) =
      (\<exists>u w1 e. configure ?f (str ''key'') 0 = (Inr u, w1) \<and>
         fst (GenerativeModel ?f preferred_model w1) = Inl e)"
    by (rule conjunct1)
  with d have 2: "ListModels \<in> set (calls_made ?f (str ''key'') 0)"
    by (rule_tac iffD2)
  have h: "configure ?f (str ''key'') 0 = (Inr (), 0) \<and>
        GenerativeModel ?f preferred_model 0 = (Inl (OtherException (str ''not found'')), 0) \<and>
        list_models ?f 0 = (Inr (?skipped @ ?m # ?others), 0) \<and>
        (\<forall>x \<in> set ?skipped. \<forall>xs. supported_generation_methods x = Some xs \<longrightarrow>
           str ''generateContent'' \<notin> set xs) \<and>
        supported_generation_methods ?m = Some [str ''countTokens'', str ''generateContent''] \<and>
        str ''generateContent'' \<in> set [str ''countTokens'', str ''generateContent'']"
    by (simp add: str_def)
  from f have "\<forall>u w1 e w2 skipped m ms others w3.
        configure ?f (str ''key'') 0 = (Inr u, w1) \<and>
        GenerativeModel ?f preferred_model w1 = (Inl e, w2) \<and>
        list_models ?f w2 = (Inr (skipped @ m # others), w3) \<and>
        (\<forall>x \<in> set skipped. \<forall>xs. supported_generation_methods x = Some xs \<longrightarrow>
           str ''generateContent'' \<notin> set xs) \<and>
        supported_generation_methods m = Some ms \<and> str ''generateContent'' \<in> set ms \<longrightarrow>
        initialize_ai ?f (str ''key'') 0 = GenerativeModel ?f (name m) w3 \<and>
        calls_made ?f (str ''key'') 0 =
          [Configure (str ''key''), Bind preferred_model, ListModels, Bind (name m)]"
    by (rule conjunct2 [OF conjunct2])
  from this [rule_format, OF h]
  have 3: "initialize_ai ?f (str ''key'') 0 = GenerativeModel ?f (name ?m) 0 \<and>
        calls_made ?f (str ''key'') 0 =
          [Configure (str ''key''), Bind preferred_model, ListModels, Bind (name ?m)]" .
  have n: "name ?m = str ''models/gemini-pro''" by simp
  have p: "str ''models/gemini-pro'' \<noteq> preferred_model"
    by (simp add: preferred_model_def str_def)
  have 4: "GenerativeModel ?f (str ''models/gemini-pro'') 0 = (Inr (str ''models/gemini-pro''), 0)"
    using p by simp
  from 3 have 5: "initialize_ai ?f (str ''key'') 0 = (Inr (str ''models/gemini-pro''), 0)"
    unfolding n 4 by (rule conjunct1)
  from 3 have 6: "calls_made ?f (str ''key'') 0 =
      [Configure (str ''key''), Bind preferred_model, ListModels, Bind (str ''models/gemini-pro'')]"
    unfolding n by (rule conjunct2)
  from 1 2 5 6 show ?thesis by blast
qed

text \<open>
  C8: when binding the preferred model raises and no listed model declares content
  generation, the exception of the preferred bind is raised again, unchanged; no
  handle is returned and no other model is bound.
\<close>

theorem no_model_reraises_original:
  assumes "configure g api_key w = (Inr u, w1)"
    and "GenerativeModel g preferred_model w1 = (Inl e, w2)"
    and "list_models g w2 = (Inr models, w3)"
    and "available_models models = []"
  shows "initialize_ai g api_key w = (Inl e, w3) \<and>
    calls_made g api_key w = [Configure api_key, Bind preferred_model, ListModels]"
  using no_model_available [OF assms] by simp

theorem no_model_reraises_original_witness:
  "available_models [\<lparr>name = str ''models/embedding-001'',
       supported_generation_methods = Some [str ''embedContent'']\<rparr>,
     \<lparr>name = str ''models/aqa'', supported_generation_methods = None\<rparr>] = [] \<and>
   initialize_ai
     \<lparr>configure = (\<lambda>k w. (Inr (), w)),
      GenerativeModel = (\<lambda>n w. (Inl (OtherException (str ''not found'')) :: exn + pystr, w)),
      list_models = (\<lambda>w. (Inr [\<lparr>name = str ''models/embedding-001'',
          supported_generation_methods = Some [str ''embedContent'']\<rparr>,
        \<lparr>name = str ''models/aqa'', supported_generation_methods = None\<rparr>], w))\<rparr>
     (str ''key'') (0::nat) = (Inl (OtherException (str ''not found'')), 0)"
proof -
  let ?ms = "[\<lparr>name = str ''models/embedding-001'',
       supported_generation_methods = Some [str ''embedContent'']\<rparr>,
     \<lparr>name = str ''models/aqa'', supported_generation_methods = None\<rparr>]"
  let ?g = "\<lparr>configure = (\<lambda>k w. (Inr (), w)),
      GenerativeModel = (\<lambda>n w. (Inl (OtherException (str ''not found'')) :: exn + pystr, w)),
      list_models = (\<lambda>w. (Inr ?ms, w))\<rparr> :: (nat, pystr) genai"
  have a: "available_models ?ms = []"
    by (simp add: available_models_def str_def)
  have c1: "configure ?g (str ''key'') 0 = (Inr (), 0)" by simp
  have c2: "GenerativeModel ?g preferred_model 0 = (Inl (OtherException (str ''not found'')), 0)"
    by simp
  have c3: "list_models ?g 0 = (Inr ?ms, 0)" by simp
  from no_model_reraises_original [OF c1 c2 c3 a]
  have "initialize_ai ?g (str ''key'') 0 = (Inl (OtherException (str ''not found'')), 0)"
    by (rule conjunct1)
  with a show ?thesis by (rule conjI)
qed

section \<open>Properties of the outcome of a request\<close>

text \<open>
  C1, as the program has it: whenever decoding the cleaned text of the response fails
  with \<^verbatim>\<open>JSONDecodeError\<close> (the empty text and a truncated object among others), the
  result is the fallback record, whose query is the placeholder beginning with
  \<^verbatim>\<open>-- \<close>, and nothing is raised.
\<close>

theorem decode_failure_returns_fallback:
  assumes "model (request_text language nl_input) w = (Inr resp, w1)"
    and "text resp = Inr t"
    and "json_loads lim (clean_text t) = Inl JSONDecodeError"
  shows "generate_siem_data lim model nl_input language w =
    (Inr (JObject
       [(str ''query'', JString (str ''-- Error parsing AI response. Please try again.'')),
        (str ''recommendations'', JArray [])]), w1)"
  using generate_text [of model language nl_input w resp w1 t lim] assms
  by (simp add: fallback_def)

theorem decode_failure_returns_fallback_witness:
  \<open>json_loads default_limits (clean_text []) = Inl JSONDecodeError \<and>
   generate_siem_data default_limits (\<lambda>p w. (Inr \<lparr>text = Inr []\<rparr>, w)) (str ''failed logins'')
     (str ''Sigma'') (0::nat) =
     (Inr (JObject
       [(str ''query'', JString (str ''-- Error parsing AI response. Please try again.'')),
        (str ''recommendations'', JArray [])]), 0) \<and>
   json_loads default_limits
     (clean_text (str ''{"query": "SigninLogs | take 100", "recommendations": ["Check'')) =
     Inl JSONDecodeError \<and>
   generate_siem_data default_limits
     (\<lambda>p w. (Inr \<lparr>text = Inr (str ''{"query": "SigninLogs | take 100", "recommendations": ["Check'')\<rparr>, w))
     (str ''failed logins'') (str ''Sigma'') (0::nat) =
     (Inr (JObject
       [(str ''query'', JString (str ''-- Error parsing AI response. Please try again.'')),
        (str ''recommendations'', JArray [])]), 0)\<close>
proof -
  let ?t = \<open>str ''{"query": "SigninLogs | take 100", "recommendations": ["Check''\<close>
  let ?m1 = "\<lambda>(p::pystr) (w::nat). (Inr \<lparr>text = Inr []\<rparr> :: exn + response, w)"
  let ?m2 = "\<lambda>(p::pystr) (w::nat). (Inr \<lparr>text = Inr ?t\<rparr> :: exn + response, w)"
  have a: "json_loads default_limits (clean_text []) = Inl JSONDecodeError"
    by (simp add: clean_eval json_eval str_def)
  have b: "json_loads default_limits (clean_text ?t) = Inl JSONDecodeError"
    by (simp add: clean_eval json_eval str_def)
  have m1: "?m1 (request_text (str ''Sigma'') (str ''failed logins'')) 0 = (Inr \<lparr>text = Inr []\<rparr>, 0)"
    by simp
  have m2: "?m2 (request_text (str ''Sigma'') (str ''failed logins'')) 0 = (Inr \<lparr>text = Inr ?t\<rparr>, 0)"
    by simp
  have t1: "text \<lparr>text = Inr []\<rparr> = (Inr [] :: exn + pystr)" by simp
  have t2: "text \<lparr>text = Inr ?t\<rparr> = (Inr ?t :: exn + pystr)" by simp
  note r1 = decode_failure_returns_fallback
      [of ?m1 "str ''Sigma''" "str ''failed logins''" 0 "\<lparr>text = Inr []\<rparr>" 0 "[]" default_limits,
       OF m1 t1 a]
  note r2 = decode_failure_returns_fallback
      [of ?m2 "str ''Sigma''" "str ''failed logins''" 0 "\<lparr>text = Inr ?t\<rparr>" 0 ?t default_limits,
       OF m2 t2 b]
  from a r1 b r2 show ?thesis by blast
qed

text \<open>
  The claim as stated fails: the placeholder of the program is not the one stated, a
  JSON array is returned as a list, not replaced by the fallback record, and a text
  of a hundred thousand opening brackets, which is not JSON, raises
  \<^verbatim>\<open>RecursionError\<close>.
\<close>

theorem fallback_record_counterexample:
  \<open>fst (generate_siem_data default_limits (\<lambda>p w. (Inr \<lparr>text = Inr []\<rparr>, w))
       (str ''failed logins'') (str ''Sigma'') (0::nat)) \<noteq>
     Inr (JObject
       [(str ''query'', JString (str ''Error parsing AI response. Please try again.'')),
        (str ''recommendations'', JArray [])]) \<and>
   fst (generate_siem_data default_limits (\<lambda>p w. (Inr \<lparr>text = Inr (str ''["a", "b"]'')\<rparr>, w))
       (str ''failed logins'') (str ''Sigma'') (0::nat)) =
     Inr (JArray [JString (str ''a''), JString (str ''b'')]) \<and>
   fst (generate_siem_data default_limits (\<lambda>p w. (Inr \<lparr>text = Inr (replicate 100000 91)\<rparr>, w))
       (str ''failed logins'') (str ''Sigma'') (0::nat)) = Inl RecursionError\<close>
proof -
  have 1: \<open>fst (generate_siem_data default_limits (\<lambda>p w. (Inr \<lparr>text = Inr []\<rparr>, w))
       (str ''failed logins'') (str ''Sigma'') (0::nat)) \<noteq>
     Inr (JObject
       [(str ''query'', JString (str ''Error parsing AI response. Please try again.'')),
        (str ''recommendations'', JArray [])])\<close>
    by (simp add: generate_siem_data_def fallback_def clean_eval json_eval str_def)
  have 2: \<open>fst (generate_siem_data default_limits
       (\<lambda>p w. (Inr \<lparr>text = Inr (str ''["a", "b"]'')\<rparr>, w))
       (str ''failed logins'') (str ''Sigma'') (0::nat)) =
     Inr (JArray [JString (str ''a''), JString (str ''b'')])\<close>
    by (simp add: generate_siem_data_def fallback_def clean_eval json_eval str_def)
  have "max_depth default_limits < 100000"
    by (simp add: default_limits_def)
  from deep_nesting_outcome [OF this, of "str ''failed logins''" "str ''Sigma''" "0::nat"]
  have 3: "fst (generate_siem_data default_limits
       (\<lambda>p w. (Inr \<lparr>text = Inr (replicate 100000 91)\<rparr>, w))
       (str ''failed logins'') (str ''Sigma'') (0::nat)) = Inl RecursionError"
    by simp
  from 1 2 3 show ?thesis by blast
qed

text \<open>
  C9: an exception of the call of the model is raised to the caller, whatever it is;
  an exception of reading the text other than \<^verbatim>\<open>JSONDecodeError\<close> is raised to the
  caller, and so is an exception of the decoder other than \<^verbatim>\<open>JSONDecodeError\<close>; and a
  run that returns a value either returns what was decoded or has met a
  \<^verbatim>\<open>JSONDecodeError\<close> and returns the fallback record.
\<close>

theorem only_decode_errors_absorbed:
  "(\<forall>e w1. model (request_text language nl_input) w = (Inl e, w1) \<longrightarrow>
      generate_siem_data lim model nl_input language w = (Inl e, w1)) \<and>
   (\<forall>resp w1 e. model (request_text language nl_input) w = (Inr resp, w1) \<and>
      text resp = Inl e \<and> e \<noteq> JSONDecodeError \<longrightarrow>
      generate_siem_data lim model nl_input language w = (Inl e, w1)) \<and>
   (\<forall>resp w1. model (request_text language nl_input) w = (Inr resp, w1) \<and>
      text resp = Inl JSONDecodeError \<longrightarrow>
      generate_siem_data lim model nl_input language w = (Inr fallback, w1)) \<and>
   (\<forall>resp w1 t e. model (request_text language nl_input) w = (Inr resp, w1) \<and>
      text resp = Inr t \<and> json_loads lim (clean_text t) = Inl e \<and> e \<noteq> JSONDecodeError \<longrightarrow>
      generate_siem_data lim model nl_input language w = (Inl e, w1)) \<and>
   (\<forall>v. fst (generate_siem_data lim model nl_input language w) = Inr v \<longrightarrow>
      (\<exists>resp w1. model (request_text language nl_input) w = (Inr resp, w1) \<and>
         (text resp = Inl JSONDecodeError \<and> v = fallback \<or>
          (\<exists>t. text resp = Inr t \<and>
             (json_loads lim (clean_text t) = Inl JSONDecodeError \<and> v = fallback \<or>
              json_loads lim (clean_text t) = Inr v)))))"
proof (intro conjI allI impI)
  fix e w1
  assume "model (request_text language nl_input) w = (Inl e, w1)"
  then show "generate_siem_data lim model nl_input language w = (Inl e, w1)"
    by (rule generate_model_raises)
next
  fix resp w1 e
  assume "model (request_text language nl_input) w = (Inr resp, w1) \<and>
      text resp = Inl e \<and> e \<noteq> JSONDecodeError"
  then show "generate_siem_data lim model nl_input language w = (Inl e, w1)"
    using generate_text_raises [of model language nl_input w resp w1 e lim] by simp
next
  fix resp w1
  assume "model (request_text language nl_input) w = (Inr resp, w1) \<and>
      text resp = Inl JSONDecodeError"
  then show "generate_siem_data lim model nl_input language w = (Inr fallback, w1)"
    using generate_text_raises [of model language nl_input w resp w1 JSONDecodeError lim] by simp
next
  fix resp w1 t e
  assume "model (request_text language nl_input) w = (Inr resp, w1) \<and>
      text resp = Inr t \<and> json_loads lim (clean_text t) = Inl e \<and> e \<noteq> JSONDecodeError"
  then show "generate_siem_data lim model nl_input language w = (Inl e, w1)"
    using generate_text [of model language nl_input w resp w1 t lim] by simp
next
  fix v
  assume v: "fst (generate_siem_data lim model nl_input language w) = Inr v"
  obtain r w1 where m: "model (request_text language nl_input) w = (r, w1)"
    by (cases "model (request_text language nl_input) w")
  show "\<exists>resp w1. model (request_text language nl_input) w = (Inr resp, w1) \<and>
         (text resp = Inl JSONDecodeError \<and> v = fallback \<or>
          (\<exists>t. text resp = Inr t \<and>
             (json_loads lim (clean_text t) = Inl JSONDecodeError \<and> v = fallback \<or>
              json_loads lim (clean_text t) = Inr v)))"
  proof (cases r)
    case (Inl e)
    with m v show ?thesis
      using generate_model_raises [of model language nl_input w e w1 lim] by simp
  next
    case (Inr resp)
    note m' = m [unfolded Inr]
    show ?thesis
    proof (cases "text resp")
      case (Inl e)
      with v m' have "text resp = Inl JSONDecodeError \<and> v = fallback"
        using generate_text_raises [of model language nl_input w resp w1 e lim]
        by (auto split: if_splits)
      with m' show ?thesis by blast
    next
      case t: (Inr t)
      from v m' t have "json_loads lim (clean_text t) = Inl JSONDecodeError \<and> v = fallback \<or>
              json_loads lim (clean_text t) = Inr v"
        using generate_text [of model language nl_input w resp w1 t lim]
        by (auto split: sum.splits if_splits)
      with m' t show ?thesis by blast
    qed
  qed
qed

theorem only_decode_errors_absorbed_witness:
  "generate_siem_data default_limits
     (\<lambda>p w. (Inr \<lparr>text = Inl (ValueError (str ''response blocked''))\<rparr>, w))
     (str ''failed logins'') (str ''Sigma'') (0::nat) =
     (Inl (ValueError (str ''response blocked'')), 0) \<and>
   generate_siem_data default_limits (\<lambda>p w. (Inl (OtherException (str ''quota'')), w))
     (str ''failed logins'') (str ''Sigma'') (0::nat) = (Inl (OtherException (str ''quota'')), 0) \<and>
   json_loads default_limits (clean_text (replicate 4301 49)) =
     Inl (ValueError (str ''Exceeds the limit for integer string conversion'')) \<and>
   generate_siem_data default_limits (\<lambda>p w. (Inr \<lparr>text = Inr (replicate 4301 49)\<rparr>, w))
     (str ''failed logins'') (str ''Sigma'') (0::nat) =
     (Inl (ValueError (str ''Exceeds the limit for integer string conversion'')), 0)"
proof -
  let ?r = "\<lparr>text = Inl (ValueError (str ''response blocked''))\<rparr>"
  let ?r3 = "\<lparr>text = Inr (replicate 4301 49)\<rparr>"
  let ?m1 = "\<lambda>(p::pystr) (w::nat). (Inr ?r :: exn + response, w)"
  let ?m2 = "\<lambda>(p::pystr) (w::nat). (Inl (OtherException (str ''quota'')) :: exn + response, w)"
  let ?m3 = "\<lambda>(p::pystr) (w::nat). (Inr ?r3 :: exn + response, w)"
  let ?e = "ValueError (str ''Exceeds the limit for integer string conversion'')"
  have a: "?m1 (request_text (str ''Sigma'') (str ''failed logins'')) 0 = (Inr ?r, 0) \<and>
      text ?r = Inl (ValueError (str ''response blocked'')) \<and>
      ValueError (str ''response blocked'') \<noteq> JSONDecodeError"
    by simp
  have b: "?m2 (request_text (str ''Sigma'') (str ''failed logins'')) 0 =
      (Inl (OtherException (str ''quota'')), 0)"
    by simp
  have n: "(0::nat) < 4301" by simp
  have d: "list_all is_digit (replicate 4301 49)"
    by (simp add: list_all_iff is_digit_def)
  have ne: "replicate 4301 (49::nat) \<noteq> []" by simp
  have h: "hd (replicate 4301 49) \<noteq> (48::nat)" by simp
  have l: "too_many_digits (max_str_digits default_limits) (replicate 4301 49)"
    by (simp add: too_many_digits_def default_limits_def)
  have j: "json_loads default_limits (clean_text (replicate 4301 49)) = Inl ?e"
    unfolding clean_text_ones [OF n] using d ne h l by (rule json_loads_long_integer)
  have c: "?m3 (request_text (str ''Sigma'') (str ''failed logins'')) 0 = (Inr ?r3, 0) \<and>
      text ?r3 = Inr (replicate 4301 49) \<and>
      json_loads default_limits (clean_text (replicate 4301 49)) = Inl ?e \<and>
      ?e \<noteq> JSONDecodeError"
    using j by simp
  note t1 = only_decode_errors_absorbed
      [of ?m1 "str ''Sigma''" "str ''failed logins''" 0 default_limits]
  note t2 = only_decode_errors_absorbed
      [of ?m2 "str ''Sigma''" "str ''failed logins''" 0 default_limits]
  note t3 = only_decode_errors_absorbed
      [of ?m3 "str ''Sigma''" "str ''failed logins''" 0 default_limits]
  from t1 a have 1: "generate_siem_data default_limits ?m1 (str ''failed logins'') (str ''Sigma'') 0 =
      (Inl (ValueError (str ''response blocked'')), 0)"
    by blast
  from t2 b have 2: "generate_siem_data default_limits ?m2 (str ''failed logins'') (str ''Sigma'') 0 =
      (Inl (OtherException (str ''quota'')), 0)"
    by blast
  from t3 have "\<forall>resp w1 t e.
      ?m3 (request_text (str ''Sigma'') (str ''failed logins'')) 0 = (Inr resp, w1) \<and>
      text resp = Inr t \<and> json_loads default_limits (clean_text t) = Inl e \<and>
      e \<noteq> JSONDecodeError \<longrightarrow>
      generate_siem_data default_limits ?m3 (str ''failed logins'') (str ''Sigma'') 0 = (Inl e, w1)"
    by (rule conjunct1 [OF conjunct2 [OF conjunct2 [OF conjunct2]]])
  from this [rule_format, OF c]
  have 3: "generate_siem_data default_limits ?m3 (str ''failed logins'') (str ''Sigma'') 0 =
      (Inl ?e, 0)" .
  from 1 2 j 3 show ?thesis by blast
qed

text \<open>
  C10: for a response wrapped in a fence of three backticks with no \<^verbatim>\<open>json\<close> tag after
  the opening one, the cleaned text still starts with the opening fence, it is not
  decoded, and the result is the fallback record.
\<close>

theorem plain_fence_gives_fallback:
  assumes "list_all isspace w1" and "list_all isspace w4"
    and "\<not> startswith body (str ''json'')"
    and "model (request_text language nl_input) w = (Inr resp, w')"
    and "text resp = Inr (w1 @ str ''```'' @ body @ str ''```'' @ w4)"
  shows "startswith (clean_text (w1 @ str ''```'' @ body @ str ''```'' @ w4)) (str ''```'') \<and>
    json_loads lim (clean_text (w1 @ str ''```'' @ body @ str ''```'' @ w4)) =
      Inl JSONDecodeError \<and>
    generate_siem_data lim model nl_input language w = (Inr fallback, w')"
proof -
  let ?t = "w1 @ str ''```'' @ body @ str ''```'' @ w4"
  from clean_text_plain_fence [OF assms(1-3)]
  obtain r where c: "clean_text ?t = str ''```'' @ r" by blast
  then have 1: "startswith (clean_text ?t) (str ''```'')"
    by (simp add: startswith_append)
  have "clean_text ?t = 96 # 96 # 96 # r"
    using c by (simp add: str_def)
  then have 2: "json_loads lim (clean_text ?t) = Inl JSONDecodeError"
    by (simp add: json_loads_backtick)
  have 3: "generate_siem_data lim model nl_input language w = (Inr fallback, w')"
    using generate_text [of model language nl_input w resp w' ?t lim] assms(4,5) 2 by simp
  from 1 2 3 show ?thesis by blast
qed

theorem plain_fence_gives_fallback_witness:
  \<open>list_all isspace (str '' '') \<and> list_all isspace (str ''\<newline>'') \<and>
   \<not> startswith (str ''\<newline>{"query": "q", "recommendations": []}\<newline>'') (str ''json'') \<and>
   generate_siem_data default_limits
     (\<lambda>p w. (Inr \<lparr>text = Inr (str '' '' @ str ''```'' @
         str ''\<newline>{"query": "q", "recommendations": []}\<newline>'' @ str ''```'' @ str ''\<newline>'')\<rparr>, w))
     (str ''failed logins'') (str ''Sigma'') (0::nat) = (Inr fallback, 0)\<close>
proof -
  let ?b = \<open>str ''\<newline>{"query": "q", "recommendations": []}\<newline>''\<close>
  let ?t = "str '' '' @ str ''```'' @ ?b @ str ''```'' @ str ''\<newline>''"
  let ?m = "\<lambda>(p::pystr) (w::nat). (Inr \<lparr>text = Inr ?t\<rparr> :: exn + response, w)"
  have a: "list_all isspace (str '' '')" by (simp add: str_def isspace_def)
  have b: "list_all isspace (str ''\<newline>'')" by (simp add: str_def isspace_def)
  have c: "\<not> startswith ?b (str ''json'')" by (simp add: str_def startswith_eval)
  have m: "?m (request_text (str ''Sigma'') (str ''failed logins'')) 0 = (Inr \<lparr>text = Inr ?t\<rparr>, 0)"
    by simp
  have t: "text \<lparr>text = Inr ?t\<rparr> = (Inr ?t :: exn + pystr)" by simp
  note r = plain_fence_gives_fallback [of "str '' ''" "str ''\<newline>''" ?b ?m "str ''Sigma''"
      "str ''failed logins''" 0 "\<lparr>text = Inr ?t\<rparr>" 0 default_limits, OF a b c m t]
  from a b c r show ?thesis by blast
qed

text \<open>
  C3, as the program has it: for a text whose stripped form neither starts with the
  opening JSON fence nor ends with a closing fence, wrapping it in a JSON fence, with
  or without whitespace around the fence and around the text, gives the same cleaned
  text and the same result as the text alone.
\<close>

theorem json_fence_same_result:
  assumes "list_all isspace w1" and "list_all isspace w2" and "list_all isspace w3"
    and "list_all isspace w4"
    and "\<not> startswith (strip t) (str ''```json'')" and "\<not> endswith (strip t) (str ''```'')"
    and "model1 (request_text language nl_input) wa = (Inr resp1, wa')"
    and "text resp1 = Inr (w1 @ str ''```json'' @ w2 @ t @ w3 @ str ''```'' @ w4)"
    and "model2 (request_text language nl_input) wb = (Inr resp2, wb')"
    and "text resp2 = Inr t"
  shows "clean_text (w1 @ str ''```json'' @ w2 @ t @ w3 @ str ''```'' @ w4) = clean_text t \<and>
    fst (generate_siem_data lim model1 nl_input language wa) =
    fst (generate_siem_data lim model2 nl_input language wb)"
proof -
  let ?f = "w1 @ str ''```json'' @ w2 @ t @ w3 @ str ''```'' @ w4"
  have "clean_text ?f = strip t"
    using assms(1-4) by (rule clean_text_json_fence)
  moreover have "clean_text t = strip t"
    using assms(5,6) by (rule clean_text_unfenced)
  ultimately have c: "clean_text ?f = clean_text t" by simp
  have "fst (generate_siem_data lim model1 nl_input language wa) =
      fst (generate_siem_data lim model2 nl_input language wb)"
    using generate_text [of model1 language nl_input wa resp1 wa' ?f lim]
      generate_text [of model2 language nl_input wb resp2 wb' t lim] assms(7-10) c
    by simp
  with c show ?thesis by blast
qed

theorem json_fence_same_result_witness:
  \<open>list_all isspace [] \<and> list_all isspace (str ''\<newline>'') \<and>
   \<not> startswith (strip (str ''{"query": "SigninLogs | take 100", "recommendations": ["Check MFA failures", "Correlate by IP"]}'')) (str ''```json'') \<and>
   \<not> endswith (strip (str ''{"query": "SigninLogs | take 100", "recommendations": ["Check MFA failures", "Correlate by IP"]}'')) (str ''```'') \<and>
   fst (generate_siem_data default_limits
     (\<lambda>p w. (Inr \<lparr>text = Inr ([] @ str ''```json'' @ str ''\<newline>'' @
        str ''{"query": "SigninLogs | take 100", "recommendations": ["Check MFA failures", "Correlate by IP"]}'' @
        str ''\<newline>'' @ str ''```'' @ [])\<rparr>, w))
     (str ''failed logins'') (str ''Sigma'') (0::nat)) =
   fst (generate_siem_data default_limits
     (\<lambda>p w. (Inr \<lparr>text = Inr (str ''{"query": "SigninLogs | take 100", "recommendations": ["Check MFA failures", "Correlate by IP"]}'')\<rparr>, w))
     (str ''failed logins'') (str ''Sigma'') (0::nat))\<close>
proof -
  let ?t = \<open>str ''{"query": "SigninLogs | take 100", "recommendations": ["Check MFA failures", "Correlate by IP"]}''\<close>
  let ?f = "[] @ str ''```json'' @ str ''\<newline>'' @ ?t @ str ''\<newline>'' @ str ''```'' @ []"
  let ?m1 = "\<lambda>(p::pystr) (w::nat). (Inr \<lparr>text = Inr ?f\<rparr> :: exn + response, w)"
  let ?m2 = "\<lambda>(p::pystr) (w::nat). (Inr \<lparr>text = Inr ?t\<rparr> :: exn + response, w)"
  have a: "list_all isspace []" by simp
  have b: "list_all isspace (str ''\<newline>'')" by (simp add: str_def isspace_def)
  have c: "\<not> startswith (strip ?t) (str ''```json'')"
    by (simp add: str_def strip_def isspace_def startswith_eval)
  have d: "\<not> endswith (strip ?t) (str ''```'')"
    by (simp add: str_def strip_def isspace_def endswith_def)
  have m1: "?m1 (request_text (str ''Sigma'') (str ''failed logins'')) 0 = (Inr \<lparr>text = Inr ?f\<rparr>, 0)"
    by simp
  have m2: "?m2 (request_text (str ''Sigma'') (str ''failed logins'')) 0 = (Inr \<lparr>text = Inr ?t\<rparr>, 0)"
    by simp
  have t1: "text \<lparr>text = Inr ?f\<rparr> = (Inr ?f :: exn + pystr)" by simp
  have t2: "text \<lparr>text = Inr ?t\<rparr> = (Inr ?t :: exn + pystr)" by simp
  note r = json_fence_same_result [of "[]" "str ''\<newline>''" "str ''\<newline>''" "[]" ?t ?m1
      "str ''Sigma''" "str ''failed logins''" 0 "\<lparr>text = Inr ?f\<rparr>" 0 ?m2 0
      "\<lparr>text = Inr ?t\<rparr>" 0 default_limits, OF a b b a c d m1 t1 m2 t2]
  from a b c d r show ?thesis by blast
qed

text \<open>
  The claim as stated fails for a text that is itself fenced: one layer is removed
  from each, so the wrapped text is not decoded and the text alone is.
\<close>

theorem fenced_twice_counterexample:
  \<open>fst (generate_siem_data default_limits
     (\<lambda>p w. (Inr \<lparr>text = Inr (str ''```json'' @ str ''\<newline>'' @
        str ''```json\<newline>{}\<newline>```'' @ str ''\<newline>'' @ str ''```'')\<rparr>, w))
     (str ''failed logins'') (str ''Sigma'') (0::nat)) = Inr fallback \<and>
   fst (generate_siem_data default_limits
     (\<lambda>p w. (Inr \<lparr>text = Inr (str ''```json\<newline>{}\<newline>```'')\<rparr>, w))
     (str ''failed logins'') (str ''Sigma'') (0::nat)) = Inr (JObject []) \<and>
   fallback \<noteq> JObject []\<close>
  by (simp add: generate_siem_data_def fallback_def clean_eval json_eval str_def)

text \<open>
  C4, as the program has it: when decoding the cleaned text fails with
  \<^verbatim>\<open>JSONDecodeError\<close>, the result is a dict with the placeholder query and an empty
  list of recommendations; when the decoder raises another exception, there is no
  result and that exception is raised; when the text is decoded, the result is the
  decoded value as it is, with nothing checked; and for a dict without a query the
  page shows its own placeholder.
\<close>

theorem decode_failure_result_shape:
  assumes "model (request_text language nl_input) w = (Inr resp, w1)"
    and "text resp = Inr t"
  shows "(json_loads lim (clean_text t) = Inl JSONDecodeError \<longrightarrow>
      (\<exists>d. fst (generate_siem_data lim model nl_input language w) = Inr (JObject d) \<and>
         map_of d (str ''query'') =
           Some (JString (str ''-- Error parsing AI response. Please try again.'')) \<and>
         map_of d (str ''recommendations'') = Some (JArray []) \<and>
         shown_query (JObject d) =
           Inr (JString (str ''-- Error parsing AI response. Please try again.'')))) \<and>
    (\<forall>e. json_loads lim (clean_text t) = Inl e \<and> e \<noteq> JSONDecodeError \<longrightarrow>
       fst (generate_siem_data lim model nl_input language w) = Inl e) \<and>
    (\<forall>v. json_loads lim (clean_text t) = Inr v \<longrightarrow>
       fst (generate_siem_data lim model nl_input language w) = Inr v) \<and>
    (\<forall>d. fst (generate_siem_data lim model nl_input language w) = Inr (JObject d) \<and>
       map_of d (str ''query'') = None \<longrightarrow>
       shown_query (JObject d) = Inr (JString (str ''Error generating query.'')))"
proof (intro conjI allI impI)
  assume "json_loads lim (clean_text t) = Inl JSONDecodeError"
  then have "fst (generate_siem_data lim model nl_input language w) = Inr fallback"
    using generate_text [of model language nl_input w resp w1 t lim] assms by simp
  moreover have "map_of [(str ''query'', JString (str ''-- Error parsing AI response. Please try again.'')),
      (str ''recommendations'', JArray [])] (str ''query'') =
      Some (JString (str ''-- Error parsing AI response. Please try again.''))"
    by simp
  moreover have "map_of [(str ''query'', JString (str ''-- Error parsing AI response. Please try again.'')),
      (str ''recommendations'', JArray [])] (str ''recommendations'') = Some (JArray [])"
    by (simp add: str_def)
  ultimately show "\<exists>d. fst (generate_siem_data lim model nl_input language w) = Inr (JObject d) \<and>
         map_of d (str ''query'') =
           Some (JString (str ''-- Error parsing AI response. Please try again.'')) \<and>
         map_of d (str ''recommendations'') = Some (JArray []) \<and>
         shown_query (JObject d) =
           Inr (JString (str ''-- Error parsing AI response. Please try again.''))"
    unfolding fallback_def by (auto simp: shown_query_def)
next
  fix e
  assume "json_loads lim (clean_text t) = Inl e \<and> e \<noteq> JSONDecodeError"
  then show "fst (generate_siem_data lim model nl_input language w) = Inl e"
    using generate_text [of model language nl_input w resp w1 t lim] assms by simp
next
  fix v
  assume "json_loads lim (clean_text t) = Inr v"
  then show "fst (generate_siem_data lim model nl_input language w) = Inr v"
    using generate_text [of model language nl_input w resp w1 t lim] assms by simp
next
  fix d
  assume "fst (generate_siem_data lim model nl_input language w) = Inr (JObject d) \<and>
       map_of d (str ''query'') = None"
  then show "shown_query (JObject d) = Inr (JString (str ''Error generating query.''))"
    by (simp add: shown_query_def)
qed

theorem decode_failure_result_shape_witness:
  \<open>json_loads default_limits (clean_text (str ''I cannot help with that.'')) =
     Inl JSONDecodeError \<and>
   fst (generate_siem_data default_limits
     (\<lambda>p w. (Inr \<lparr>text = Inr (str ''I cannot help with that.'')\<rparr>, w))
     (str ''failed logins'') (str ''Sigma'') (0::nat)) = Inr fallback \<and>
   shown_query fallback =
     Inr (JString (str ''-- Error parsing AI response. Please try again.'')) \<and>
   json_loads default_limits (clean_text (replicate 100000 91)) = Inl RecursionError \<and>
   fst (generate_siem_data default_limits (\<lambda>p w. (Inr \<lparr>text = Inr (replicate 100000 91)\<rparr>, w))
     (str ''failed logins'') (str ''Sigma'') (0::nat)) = Inl RecursionError \<and>
   json_loads default_limits (clean_text (str ''{"recommendations": ["Check MFA failures"]}'')) =
     Inr (JObject [(str ''recommendations'', JArray [JString (str ''Check MFA failures'')])]) \<and>
   fst (generate_siem_data default_limits
     (\<lambda>p w. (Inr \<lparr>text = Inr (str ''{"recommendations": ["Check MFA failures"]}'')\<rparr>, w))
     (str ''failed logins'') (str ''Sigma'') (0::nat)) =
     Inr (JObject [(str ''recommendations'', JArray [JString (str ''Check MFA failures'')])]) \<and>
   shown_query (JObject [(str ''recommendations'', JArray [JString (str ''Check MFA failures'')])]) =
     Inr (JString (str ''Error generating query.''))\<close>
proof -
  let ?t = "str ''I cannot help with that.''"
  let ?m = "\<lambda>(p::pystr) (w::nat). (Inr \<lparr>text = Inr ?t\<rparr> :: exn + response, w)"
  let ?u = "replicate 100000 (91::nat)"
  let ?n = "\<lambda>(p::pystr) (w::nat). (Inr \<lparr>text = Inr ?u\<rparr> :: exn + response, w)"
  let ?x = \<open>str ''{"recommendations": ["Check MFA failures"]}''\<close>
  let ?o = "\<lambda>(p::pystr) (w::nat). (Inr \<lparr>text = Inr ?x\<rparr> :: exn + response, w)"
  let ?d = "[(str ''recommendations'', JArray [JString (str ''Check MFA failures'')])]"
  have a: "json_loads default_limits (clean_text ?t) = Inl JSONDecodeError"
    by (simp add: clean_eval json_eval str_def)
  have m: "?m (request_text (str ''Sigma'') (str ''failed logins'')) 0 = (Inr \<lparr>text = Inr ?t\<rparr>, 0)"
    by simp
  have t: "text \<lparr>text = Inr ?t\<rparr> = (Inr ?t :: exn + pystr)" by simp
  note r = decode_failure_result_shape [of ?m "str ''Sigma''" "str ''failed logins''" 0
      "\<lparr>text = Inr ?t\<rparr>" 0 ?t default_limits, OF m t]
  from r a obtain d where d: "fst (generate_siem_data default_limits ?m (str ''failed logins'')
        (str ''Sigma'') 0) = Inr (JObject d)"
      "map_of d (str ''query'') =
        Some (JString (str ''-- Error parsing AI response. Please try again.''))"
      "map_of d (str ''recommendations'') = Some (JArray [])"
      "shown_query (JObject d) =
        Inr (JString (str ''-- Error parsing AI response. Please try again.''))"
    by blast
  have f: "fst (generate_siem_data default_limits ?m (str ''failed logins'') (str ''Sigma'') 0) =
      Inr fallback"
    using generate_text [of ?m "str ''Sigma''" "str ''failed logins''" 0 "\<lparr>text = Inr ?t\<rparr>" 0 ?t
        default_limits]
      m t a by simp
  with d(1) have "fallback = JObject d" by simp
  with d(4) have s: "shown_query fallback =
      Inr (JString (str ''-- Error parsing AI response. Please try again.''))" by simp
  have k: "(0::nat) < 100000" by simp
  have "max_depth default_limits < 100000" by (simp add: default_limits_def)
  then have "json_loads default_limits ?u = Inl RecursionError"
    by (rule json_loads_deep_nesting)
  then have b: "json_loads default_limits (clean_text ?u) = Inl RecursionError"
    unfolding clean_text_brackets [OF k] .
  have n: "?n (request_text (str ''Sigma'') (str ''failed logins'')) 0 = (Inr \<lparr>text = Inr ?u\<rparr>, 0)"
    by simp
  have u: "text \<lparr>text = Inr ?u\<rparr> = (Inr ?u :: exn + pystr)" by simp
  note r2 = decode_failure_result_shape [of ?n "str ''Sigma''" "str ''failed logins''" 0
      "\<lparr>text = Inr ?u\<rparr>" 0 ?u default_limits, OF n u]
  have e: "RecursionError \<noteq> JSONDecodeError" by simp
  from r2 b e have g: "fst (generate_siem_data default_limits ?n (str ''failed logins'')
      (str ''Sigma'') 0) = Inl RecursionError"
    by blast
  have c: "json_loads default_limits (clean_text ?x) = Inr (JObject ?d)"
    by (simp add: clean_eval json_eval str_def)
  have o: "?o (request_text (str ''Sigma'') (str ''failed logins'')) 0 = (Inr \<lparr>text = Inr ?x\<rparr>, 0)"
    by simp
  have x: "text \<lparr>text = Inr ?x\<rparr> = (Inr ?x :: exn + pystr)" by simp
  note r3 = decode_failure_result_shape [of ?o "str ''Sigma''" "str ''failed logins''" 0
      "\<lparr>text = Inr ?x\<rparr>" 0 ?x default_limits, OF o x]
  from r3 c have h: "fst (generate_siem_data default_limits ?o (str ''failed logins'')
      (str ''Sigma'') 0) = Inr (JObject ?d)"
    by blast
  have q: "map_of ?d (str ''query'') = None"
    by (simp add: str_def)
  from r3 h q have i: "shown_query (JObject ?d) = Inr (JString (str ''Error generating query.''))"
    by blast
  from a f s b g c h i show ?thesis by blast
qed

text \<open>
  The claim as stated fails: five recommendations are returned as they are, and so is
  a dict without a query.
\<close>

theorem unchecked_result_counterexample:
  \<open>fst (generate_siem_data default_limits
     (\<lambda>p w. (Inr \<lparr>text = Inr (str ''{"query": "q", "recommendations": ["a", "b", "c", "d", "e"]}'')\<rparr>, w))
     (str ''failed logins'') (str ''Sigma'') (0::nat)) =
     Inr (JObject [(str ''query'', JString (str ''q'')),
       (str ''recommendations'',
        JArray [JString (str ''a''), JString (str ''b''), JString (str ''c''), JString (str ''d''),
          JString (str ''e'')])]) \<and>
   fst (generate_siem_data default_limits
     (\<lambda>p w. (Inr \<lparr>text = Inr (str ''{"recommendations": []}'')\<rparr>, w))
     (str ''failed logins'') (str ''Sigma'') (0::nat)) =
     Inr (JObject [(str ''recommendations'', JArray [])])\<close>
  by (simp add: generate_siem_data_def clean_eval json_eval str_def)

text \<open>
  C2: a response that the decoder reads, within the limits of the interpreter, as a
  dict with the keys \<^verbatim>\<open>query\<close> and \<^verbatim>\<open>recommendations\<close>, the latter a list of at most four
  entries, is returned as that dict, with the query and every recommendation as
  decoded and no key added or dropped. (The lemma \<open>generate_decoded\<close> shows the same
  for every text that decodes, whatever the value; a text that the decoder does not
  read because it reaches a limit is the matter of \<open>long_integer_outcome\<close> and
  \<open>deep_nesting_outcome\<close>.)
\<close>

theorem well_formed_response_returned_unchanged:
  assumes "model (request_text language nl_input) w = (Inr resp, w1)"
    and "text resp = Inr t"
    and "json_loads lim t =
      Inr (JObject [(str ''query'', q), (str ''recommendations'', JArray rs)])"
    and "length rs \<le> 4"
  shows "generate_siem_data lim model nl_input language w =
    (Inr (JObject [(str ''query'', q), (str ''recommendations'', JArray rs)]), w1)"
  using assms(1-3) by (rule generate_decoded)

theorem well_formed_response_returned_unchanged_witness:
  \<open>json_loads default_limits (str ''{"query": "SigninLogs | where ResultType != 0 | take 100", "recommendations": ["Check MFA failures", "Correlate by IP"]}'') =
     Inr (JObject [(str ''query'', JString (str ''SigninLogs | where ResultType != 0 | take 100'')),
       (str ''recommendations'',
        JArray [JString (str ''Check MFA failures''), JString (str ''Correlate by IP'')])]) \<and>
   length [JString (str ''Check MFA failures''), JString (str ''Correlate by IP'')] \<le> 4 \<and>
   generate_siem_data default_limits
     (\<lambda>p w. (Inr \<lparr>text = Inr (str ''{"query": "SigninLogs | where ResultType != 0 | take 100", "recommendations": ["Check MFA failures", "Correlate by IP"]}'')\<rparr>, w))
     (str ''failed logins from new countries'') (str ''KQL (Microsoft Sentinel)'') (0::nat) =
     (Inr (JObject [(str ''query'', JString (str ''SigninLogs | where ResultType != 0 | take 100'')),
       (str ''recommendations'',
        JArray [JString (str ''Check MFA failures''), JString (str ''Correlate by IP'')])]), 0)\<close>
proof -
  let ?t = \<open>str ''{"query": "SigninLogs | where ResultType != 0 | take 100", "recommendations": ["Check MFA failures", "Correlate by IP"]}''\<close>
  let ?q = "JString (str ''SigninLogs | where ResultType != 0 | take 100'')"
  let ?rs = "[JString (str ''Check MFA failures''), JString (str ''Correlate by IP'')]"
  let ?m = "\<lambda>(p::pystr) (w::nat). (Inr \<lparr>text = Inr ?t\<rparr> :: exn + response, w)"
  have a: "json_loads default_limits ?t =
      Inr (JObject [(str ''query'', ?q), (str ''recommendations'', JArray ?rs)])"
    by (simp add: json_eval str_def)
  have b: "length ?rs \<le> 4" by simp
  have m: "?m (request_text (str ''KQL (Microsoft Sentinel)'')
      (str ''failed logins from new countries'')) 0 = (Inr \<lparr>text = Inr ?t\<rparr>, 0)"
    by simp
  have t: "text \<lparr>text = Inr ?t\<rparr> = (Inr ?t :: exn + pystr)" by simp
  note r = well_formed_response_returned_unchanged [of ?m "str ''KQL (Microsoft Sentinel)''"
      "str ''failed logins from new countries''" 0 "\<lparr>text = Inr ?t\<rparr>" 0 ?t default_limits
      ?q ?rs, OF m t a b]
  from a b r show ?thesis by blast
qed

end
